theory Spec2Isabelle
  imports Complex_Main "HOL-Library.Sublist" "HOL-Library.AList"
begin

section \<open>VRChat Prometheus exporter: a shallow embedding of \<open>exporter.py\<close>\<close>

text \<open>
  The development follows \<^verbatim>\<open>Projects/VRChat stats exporter/exporter.py\<close>.
  Python values that come from the upstream API are JSON values; a Python exception
  is a value of type \<open>exc\<close>, and a computation that may raise returns a \<open>res\<close>.
  JSON numbers are idealised as integers (no property below depends on a fractional
  value), and a JSON object is the association list of its parsed dictionary.
\<close>

subsection \<open>JSON values and the Python operations used on them\<close>

datatype json =
    JNull
  | JBool bool
  | JNum int
  | JStr string
  | JArr "json list"
  | JObj "(string \<times> json) list"

datatype exc = TypeError | AttributeError | ValueError | KeyError | IndexError | ZeroDivisionError
  | OverflowError

datatype 'a res = Ret 'a | Raise exc

text \<open>Python truthiness: \<open>None\<close>, \<open>False\<close>, \<open>0\<close> and empty containers are falsy.\<close>

fun truthy :: "json \<Rightarrow> bool" where
  "truthy JNull = False"
| "truthy (JBool b) = b"
| "truthy (JNum n) = (n \<noteq> 0)"
| "truthy (JStr s) = (s \<noteq> [])"
| "truthy (JArr xs) = (xs \<noteq> [])"
| "truthy (JObj kvs) = (kvs \<noteq> [])"

text \<open>\<^verbatim>\<open>k in v\<close> for a string \<open>k\<close>: key membership in a dict, element membership in a
  list, substring test in a string, \<open>TypeError\<close> on anything else.\<close>

fun py_in :: "string \<Rightarrow> json \<Rightarrow> bool res" where
  "py_in k (JObj kvs) = Ret (k \<in> set (map fst kvs))"
| "py_in k (JArr xs) = Ret (JStr k \<in> set xs)"
| "py_in k (JStr s) = Ret (sublist k s)"
| "py_in k v = Raise TypeError"

text \<open>\<^verbatim>\<open>v.get(k, d)\<close>: only a dict has the method.\<close>

fun py_get :: "json \<Rightarrow> string \<Rightarrow> json \<Rightarrow> json res" where
  "py_get (JObj kvs) k d = Ret (case map_of kvs k of None \<Rightarrow> d | Some x \<Rightarrow> x)"
| "py_get v k d = Raise AttributeError"

text \<open>\<^verbatim>\<open>s.split(c)\<close> for a one-character separator.\<close>

fun split_on :: "char \<Rightarrow> string \<Rightarrow> string list" where
  "split_on c [] = [[]]"
| "split_on c (x # xs) =
     (if x = c then [] # split_on c xs
      else (case split_on c xs of [] \<Rightarrow> [[x]] | p # ps \<Rightarrow> (x # p) # ps))"

text \<open>\<^verbatim>\<open>v.split(c)\<close> on a JSON value: only a string has the method.\<close>

fun py_split :: "json \<Rightarrow> char \<Rightarrow> string list res" where
  "py_split (JStr s) c = Ret (split_on c s)"
| "py_split v c = Raise AttributeError"

subsection \<open>Tables and helpers\<close>

definition TRUST_RANK_MAP :: "(string \<times> int) list" where
  "TRUST_RANK_MAP =
    [(''system_legend'', 5),
     (''system_trust_veteran'', 4),
     (''system_trust_trusted'', 3),
     (''system_trust_known'', 2),
     (''system_trust_basic'', 1),
     (''system_probable_troll'', -1),
     (''system_troll'', -2)]"

definition INSTANCE_TYPE_MAP :: "(string \<times> string) list" where
  "INSTANCE_TYPE_MAP =
    [(''public'', ''public''),
     (''hidden'', ''friends+''),
     (''friends'', ''friends''),
     (''private'', ''private''),
     (''group'', ''group'')]"

text \<open>The loop of \<open>_parse_instance_type\<close> over the items of the table, in insertion order.\<close>

fun first_label :: "(string \<times> string) list \<Rightarrow> string \<Rightarrow> string" where
  "first_label [] location = ''unknown''"
| "first_label ((key, label) # rest) location =
     (if sublist (''~'' @ key) location then label else first_label rest location)"

definition parse_instance_type :: "string \<Rightarrow> string" where
  "parse_instance_type location =
     (if location = [] \<or> location \<in> set [''private'', ''offline'', ''traveling'']
      then (if location = [] then ''unknown'' else location)
      else if \<not> sublist ''~'' location then ''public''
      else first_label INSTANCE_TYPE_MAP location)"

text \<open>The loop of \<open>_trust_rank_value\<close> over the reversed tags. A tag that is a list or a
  dict is unhashable, so looking it up in the table raises \<open>TypeError\<close>; any other
  non-string tag is simply not a key of the table.\<close>

fun trust_scan :: "json list \<Rightarrow> int res" where
  "trust_scan [] = Ret 0"
| "trust_scan (JStr tag # rest) =
     (case map_of TRUST_RANK_MAP tag of Some r \<Rightarrow> Ret r | None \<Rightarrow> trust_scan rest)"
| "trust_scan (JArr xs # rest) = Raise TypeError"
| "trust_scan (JObj kvs # rest) = Raise TypeError"
| "trust_scan (t # rest) = trust_scan rest"

text \<open>\<open>reversed(tags)\<close> accepts a list, a string (its characters) and a dict (its keys).\<close>

fun py_reversed :: "json \<Rightarrow> json list res" where
  "py_reversed (JArr xs) = Ret (rev xs)"
| "py_reversed (JStr s) = Ret (rev (map (\<lambda>c. JStr [c]) s))"
| "py_reversed (JObj kvs) = Ret (rev (map (\<lambda>kv. JStr (fst kv)) kvs))"
| "py_reversed v = Raise TypeError"

definition trust_rank_value :: "json \<Rightarrow> int res" where
  "trust_rank_value tags =
     (case py_reversed tags of Raise x \<Rightarrow> Raise x | Ret ts \<Rightarrow> trust_scan ts)"

text \<open>The trust rank as the specification words it: the rank of the first tag of the
  reversed list that the table knows, and 0 when there is none.\<close>

definition trust_rank_spec :: "string list \<Rightarrow> int" where
  "trust_rank_spec tags =
     (case List.find (\<lambda>t. map_of TRUST_RANK_MAP t \<noteq> None) (rev tags) of
        None \<Rightarrow> 0
      | Some t \<Rightarrow> the (map_of TRUST_RANK_MAP t))"

subsection \<open>Further Python operations\<close>

fun py_len :: "json \<Rightarrow> nat res" where
  "py_len (JArr xs) = Ret (length xs)"
| "py_len (JStr s) = Ret (length s)"
| "py_len (JObj kvs) = Ret (length kvs)"
| "py_len v = Raise TypeError"

text \<open>\<^verbatim>\<open>v[0]\<close> on a truthy value: the first element of a list, the first character of a
  string, \<open>KeyError\<close> on a dict (its keys are strings), \<open>TypeError\<close> on a number.\<close>

fun py_index0 :: "json \<Rightarrow> json res" where
  "py_index0 (JArr (x # xs)) = Ret x"
| "py_index0 (JArr []) = Raise IndexError"
| "py_index0 (JStr (c # cs)) = Ret (JStr [c])"
| "py_index0 (JStr []) = Raise IndexError"
| "py_index0 (JObj kvs) = Raise KeyError"
| "py_index0 v = Raise TypeError"

text \<open>Dictionary keys: lists and dicts are unhashable; \<open>True\<close> and \<open>1\<close> (and \<open>False\<close> and
  \<open>0\<close>) are the same key.\<close>

fun hashable :: "json \<Rightarrow> bool" where
  "hashable (JArr xs) = False"
| "hashable (JObj kvs) = False"
| "hashable v = True"

fun key_norm :: "json \<Rightarrow> json" where
  "key_norm (JBool b) = JNum (if b then 1 else 0)"
| "key_norm v = v"

text \<open>\<^verbatim>\<open>d[k] = d.get(k, 0) + 1\<close> on an insertion-ordered dict with JSON keys.\<close>

fun bump_at :: "json \<Rightarrow> (json \<times> int) list \<Rightarrow> (json \<times> int) list" where
  "bump_at k [] = [(k, 1)]"
| "bump_at k ((k', n) # rest) =
     (if key_norm k' = key_norm k then (k', n + 1) # rest else (k', n) # bump_at k rest)"

definition count_bump :: "json \<Rightarrow> (json \<times> int) list \<Rightarrow> (json \<times> int) list res" where
  "count_bump k d = (if hashable k then Ret (bump_at k d) else Raise TypeError)"

subsection \<open>Process environment, metrics registry and program state\<close>

text \<open>
  The record \<open>env\<close> holds what the process reads from outside: the configuration
  variables (with the source's names) and the outside world. \<open>upstream e n\<close> is the
  answer of the API to the \<open>n\<close>-th request the process issues and \<open>latency e n\<close> the
  time that request takes; \<open>set_order\<close> is the iteration order of a Python set built by
  the given insertions; \<open>repr\<close> is \<open>str()\<close> on a value that is not a string and
  \<open>float_of_str\<close> is \<open>float()\<close> on a string (\<open>None\<close> when it raises). A 200 response is
  taken to carry a body that parses as JSON.
\<close>

datatype http = Response nat json | RequestException

record env =
  REQUEST_DELAY :: real
  MAX_WORLD_LOOKUPS :: int
  OFFLINE_SCRAPE_CYCLES :: int
  SCRAPE_INTERVAL :: int
  AUTH_COOKIE :: string
  USERNAME :: string
  PASSWORD :: string
  upstream :: "nat \<Rightarrow> string \<Rightarrow> (string \<times> json) list \<Rightarrow> http"
  latency :: "nat \<Rightarrow> real"
  set_order :: "string list \<Rightarrow> string list"
  repr :: "json \<Rightarrow> string"
  float_of_str :: "string \<Rightarrow> real option"

datatype metric =
    ONLINE_USERS | API_HEALTHY | USER_TRUST_RANK
  | FRIENDS_ONLINE | FRIENDS_OFFLINE | FRIENDS_ACTIVE | FRIENDS_TOTAL
  | FRIEND_STATUS_GAUGE | FRIEND_PLATFORM_GAUGE | FRIEND_WORLD_GAUGE | FRIEND_DETAIL
  | WORLD_VISITS | WORLD_FAVORITES | WORLD_OCCUPANTS | WORLD_HEAT | WORLDS_CACHED
  | FAVORITES_TOTAL | INSTANCE_PLAYER_COUNT
  | SCRAPE_ERRORS | SCRAPE_DURATION | LAST_SCRAPE_TS | SCRAPE_CYCLE_NUM

text \<open>A cache record is a Python dict with a fixed set of keys; \<open>w_oid\<close> and \<open>i_oid\<close> stand
  for the identity of the dict object (a fresh number at each creation, kept by every
  in-place update).\<close>

record world_rec =
  w_oid :: nat
  w_name :: json
  w_authorName :: json
  w_visits :: json
  w_favorites :: json
  w_occupants :: json
  w_heat :: json

record inst_rec =
  i_oid :: nat
  i_playerCount :: json
  i_region :: json
  i_type :: json
  i_world_name :: json
  i_world_id :: string
  i_instance_id :: string

text \<open>
  The state: the wall clock, the client's fields, the history of issued requests (issue
  time, endpoint, parameters), the histogram's observations, the two module-level caches
  (insertion-ordered dicts), the next object identity, the labelled gauges and counters
  (metric family and label values to value), and the info and enum metrics.
\<close>

record state =
  clock :: real
  authenticated :: bool
  last_request_time :: real
  requests :: "(real \<times> string \<times> (string \<times> json) list) list"
  observations :: "(string \<times> real) list"
  world_cache :: "(string \<times> world_rec) list"
  instance_cache :: "(string \<times> inst_rec) list"
  next_oid :: nat
  metrics :: "metric \<times> string list \<Rightarrow> real option"
  user_info :: "(string \<times> string) list"
  user_status :: string

definition py_str :: "env \<Rightarrow> json \<Rightarrow> string" where
  "py_str e v = (case v of JStr s \<Rightarrow> s | _ \<Rightarrow> repr e v)"

text \<open>
  \<open>float()\<close> on a Python integer, which \<open>Gauge.set\<close> applies to its argument: an integer
  of at most 53 bits is represented exactly; a longer one is rounded to 53 significant
  bits, ties to the even significand, and raises \<open>OverflowError\<close> (here \<open>None\<close>) when the
  rounded value reaches \<open>2 ^ 1024\<close>.
\<close>

function bit_length :: "int \<Rightarrow> nat" where
  "bit_length n = (if n \<le> 0 then 0 else Suc (bit_length (n div 2)))"
  by pat_completeness auto

termination
  by (relation "measure nat") auto

declare bit_length.simps [simp del]

definition round_to_53_bits :: "int \<Rightarrow> int" where
  "round_to_53_bits m =
     (let k = bit_length m - 53;
          q = m div 2 ^ k;
          r = m mod 2 ^ k;
          half = 2 ^ (k - 1)
      in (if half < r \<or> (r = half \<and> odd q) then q + 1 else q) * 2 ^ k)"

definition float_of_big_int :: "int \<Rightarrow> real option" where
  "float_of_big_int n =
     (let v = round_to_53_bits \<bar>n\<bar>
      in if 2 ^ 1024 \<le> v then None
         else Some (if n < 0 then - of_int v else of_int v))"

definition float_of_int :: "int \<Rightarrow> real option" where
  "float_of_int n = (if \<bar>n\<bar> < 2 ^ 53 then Some (of_int n) else float_of_big_int n)"

fun py_float :: "env \<Rightarrow> json \<Rightarrow> real res" where
  "py_float e (JNum n) = (case float_of_int n of None \<Rightarrow> Raise OverflowError | Some r \<Rightarrow> Ret r)"
| "py_float e (JBool b) = Ret (if b then 1 else 0)"
| "py_float e (JStr s) = (case float_of_str e s of None \<Rightarrow> Raise ValueError | Some r \<Rightarrow> Ret r)"
| "py_float e v = Raise TypeError"

text \<open>\<open>G.set(v)\<close> with a number, \<open>G.labels(...)\<close> (which creates the child at 0 when it is
  new), \<open>G.labels(...).set(v)\<close> with a JSON value (\<open>float(v)\<close> may raise after the child
  was created), \<open>C.labels(...).inc()\<close> and \<open>G._metrics.clear()\<close>.  Where the source sets a
  gauge to a length, a count, a rank or the cycle number, \<open>gauge_put\<close> stores the number
  itself: \<open>float()\<close> is exact on integers below \<open>2 ^ 53\<close>.  Times are exact reals.\<close>

definition gauge_put :: "metric \<Rightarrow> string list \<Rightarrow> real \<Rightarrow> state \<Rightarrow> state" where
  "gauge_put m ls v s = s\<lparr>metrics := (metrics s)((m, ls) \<mapsto> v)\<rparr>"

definition child :: "metric \<Rightarrow> string list \<Rightarrow> state \<Rightarrow> state" where
  "child m ls s = (if metrics s (m, ls) = None then gauge_put m ls 0 s else s)"

definition gauge_set :: "env \<Rightarrow> metric \<Rightarrow> string list \<Rightarrow> json \<Rightarrow> state \<Rightarrow> unit res \<times> state" where
  "gauge_set e m ls v s =
     (let s1 = (if ls = [] then s else child m ls s) in
      case py_float e v of
        Raise x \<Rightarrow> (Raise x, s1)
      | Ret r \<Rightarrow> (Ret (), gauge_put m ls r s1))"

definition counter_inc :: "metric \<Rightarrow> string list \<Rightarrow> state \<Rightarrow> state" where
  "counter_inc m ls s =
     gauge_put m ls ((case metrics s (m, ls) of None \<Rightarrow> 0 | Some v \<Rightarrow> v) + 1) s"

definition metrics_clear :: "metric \<Rightarrow> state \<Rightarrow> state" where
  "metrics_clear m s = s\<lparr>metrics := (\<lambda>k. if fst k = m then None else metrics s k)\<rparr>"

subsection \<open>The client: throttle and request\<close>

definition throttle :: "env \<Rightarrow> state \<Rightarrow> state" where
  "throttle e s =
     (let elapsed = clock s - last_request_time s;
          s1 = (if elapsed < REQUEST_DELAY e
                then s\<lparr>clock := clock s + (REQUEST_DELAY e - elapsed)\<rparr> else s)
      in s1\<lparr>last_request_time := clock s1\<rparr>)"

definition endpoint_label :: "string \<Rightarrow> string" where
  "endpoint_label endpoint =
     (if CHR ''/'' \<in> set endpoint then split_on CHR ''/'' endpoint ! 1 else endpoint)"

text \<open>\<open>_get\<close>: \<open>None\<close> is \<open>JNull\<close>. The request is issued when the throttle returns; the
  clock then advances by the request's latency, and by ten more seconds on a 429.\<close>

definition client_get :: "env \<Rightarrow> string \<Rightarrow> (string \<times> json) list \<Rightarrow> state \<Rightarrow> json \<times> state" where
  "client_get e endpoint params s =
     (let s1 = throttle e s;
          n = length (requests s1);
          s2 = s1\<lparr>requests := requests s1 @ [(clock s1, endpoint, params)],
                  clock := clock s1 + latency e n\<rparr>
      in case upstream e n endpoint params of
           RequestException \<Rightarrow> (JNull, s2)
         | Response code body \<Rightarrow>
             (let s3 = s2\<lparr>observations :=
                           observations s2 @ [(endpoint_label endpoint, latency e n)]\<rparr>
              in if code = 200 then (body, s3)
                 else if code = 401 then (JNull, s3\<lparr>authenticated := False\<rparr>)
                 else if code = 429 then (JNull, s3\<lparr>clock := clock s3 + 10\<rparr>)
                 else (JNull, s3)))"

subsection \<open>Sequencing computations that may raise\<close>

text \<open>An exception keeps the state reached when it was raised: what a collector wrote to
  the caches and the registry before raising stays written.\<close>

definition seq :: "'a res \<times> state \<Rightarrow> ('a \<Rightarrow> state \<Rightarrow> 'b res \<times> state) \<Rightarrow> 'b res \<times> state" where
  "seq m f = (case m of (Ret a, s) \<Rightarrow> f a s | (Raise x, s) \<Rightarrow> (Raise x, s))"

text \<open>The same for a computation that may also not return (\<open>None\<close>).\<close>

definition seq_opt ::
  "('a res \<times> state) option \<Rightarrow> ('a \<Rightarrow> state \<Rightarrow> ('b res \<times> state) option) \<Rightarrow> ('b res \<times> state) option" where
  "seq_opt m f =
     (case m of None \<Rightarrow> None | Some (Ret a, s) \<Rightarrow> f a s | Some (Raise x, s) \<Rightarrow> Some (Raise x, s))"

definition dget :: "(string \<times> json) list \<Rightarrow> string \<Rightarrow> json \<Rightarrow> json" where
  "dget kvs k d = (case map_of kvs k of None \<Rightarrow> d | Some x \<Rightarrow> x)"

definition set_len :: "metric \<Rightarrow> json \<Rightarrow> state \<Rightarrow> unit res \<times> state" where
  "set_len m v s =
     (case py_len v of Raise x \<Rightarrow> (Raise x, s) | Ret n \<Rightarrow> (Ret (), gauge_put m [] (of_nat n) s))"

subsection \<open>Collectors: platform and current user\<close>

definition collect_platform :: "env \<Rightarrow> state \<Rightarrow> unit res \<times> state" where
  "collect_platform e s =
     (case client_get e ''/visits'' [] s of
        (data, s1) \<Rightarrow>
          if data \<noteq> JNull
          then gauge_set e ONLINE_USERS [] data (gauge_put API_HEALTHY [] 1 s1)
          else (Ret (), counter_inc SCRAPE_ERRORS [''visits''] (gauge_put API_HEALTHY [] 0 s1)))"

text \<open>\<open>not data or "id" not in data\<close>, then the body on the profile document. Once
  \<open>"id" in data\<close> holds, \<open>data\<close> is a dict, or a list or string that contains \<open>"id"\<close>, on
  which the first \<open>data.get\<close> raises.\<close>

definition collect_current_user :: "env \<Rightarrow> state \<Rightarrow> unit res \<times> state" where
  "collect_current_user e s =
     (case client_get e ''/auth/user'' [] s of
        (data, s1) \<Rightarrow>
          (case (if \<not> truthy data then Ret True
                 else (case py_in ''id'' data of Raise x \<Rightarrow> Raise x | Ret b \<Rightarrow> Ret (\<not> b))) of
             Raise x \<Rightarrow> (Raise x, s1)
           | Ret True \<Rightarrow> (Ret (), counter_inc SCRAPE_ERRORS [''auth_user''] s1)
           | Ret False \<Rightarrow>
               (case data of
                  JObj kvs \<Rightarrow>
                    (let s2 = s1\<lparr>user_info :=
                           [(''display_name'', py_str e (dget kvs ''displayName'' (JStr []))),
                            (''user_id'', py_str e (dget kvs ''id'' (JStr []))),
                            (''username'', py_str e (dget kvs ''username'' (JStr []))),
                            (''status_description'', py_str e (dget kvs ''statusDescription'' (JStr []))),
                            (''last_platform'', py_str e (dget kvs ''last_platform'' (JStr []))),
                            (''developer_type'', py_str e (dget kvs ''developerType'' (JStr ''none''))),
                            (''home_location'', py_str e (dget kvs ''homeLocation'' (JStr [])))]\<rparr>;
                         status = dget kvs ''status'' (JStr ''offline'');
                         s3 = (if status \<in> set (map JStr [''active'', ''join me'', ''ask me'', ''busy'', ''offline''])
                               then s2\<lparr>user_status := py_str e status\<rparr> else s2);
                         tags = dget kvs ''tags'' (JArr [])
                     in case trust_rank_value tags of
                          Raise x \<Rightarrow> (Raise x, s3)
                        | Ret rank \<Rightarrow>
                            seq (set_len FRIENDS_ONLINE (dget kvs ''onlineFriends'' (JArr []))
                                   (gauge_put USER_TRUST_RANK [] (of_int rank) s3))
                              (\<lambda>_ s4. seq (set_len FRIENDS_OFFLINE (dget kvs ''offlineFriends'' (JArr [])) s4)
                              (\<lambda>_ s5. seq (set_len FRIENDS_ACTIVE (dget kvs ''activeFriends'' (JArr [])) s5)
                              (\<lambda>_ s6. set_len FRIENDS_TOTAL (dget kvs ''friends'' (JArr [])) s6))))
                | _ \<Rightarrow> (Raise AttributeError, s1))))"

subsection \<open>Pagination\<close>

text \<open>The \<open>while True\<close> loop that pages through an endpoint, 100 entries a page; it is
  written three times in the source (online friends, offline friends, favorites), with
  different fixed parameters. It stops at a page that is falsy or not a list, and after
  a page shorter than 100. Upstream may answer with full pages for ever, so the loop may
  not return.\<close>

partial_function (option) fetch_pages ::
  "env \<Rightarrow> string \<Rightarrow> (int \<Rightarrow> (string \<times> json) list) \<Rightarrow> int \<Rightarrow> json list \<Rightarrow> state
     \<Rightarrow> (json list \<times> state) option" where
  "fetch_pages e endpoint mk_params offset acc s =
     (case client_get e endpoint (mk_params offset) s of
        (page, s1) \<Rightarrow>
          (case page of
             JArr xs \<Rightarrow>
               if xs = [] then Some (acc, s1)
               else if length xs < 100 then Some (acc @ xs, s1)
               else fetch_pages e endpoint mk_params (offset + 100) (acc @ xs) s1
           | _ \<Rightarrow> Some (acc, s1)))"

declare fetch_pages.simps [code]

definition friends_params :: "string \<Rightarrow> int \<Rightarrow> (string \<times> json) list" where
  "friends_params offline offset =
     [(''offset'', JNum offset), (''n'', JNum 100), (''offline'', JStr offline)]"

definition favorites_params :: "string \<Rightarrow> int \<Rightarrow> (string \<times> json) list" where
  "favorites_params ftype offset =
     [(''type'', JStr ftype), (''offset'', JNum offset), (''n'', JNum 100)]"

subsection \<open>Collector: online friends\<close>

text \<open>First pass over the friends: the set of world ids that are not in the world cache
  (kept as the list of its insertions).\<close>

fun scan_worlds :: "(string \<times> world_rec) list \<Rightarrow> json list \<Rightarrow> string list \<Rightarrow> string list res" where
  "scan_worlds cache [] acc = Ret acc"
| "scan_worlds cache (f # fs) acc =
     (case py_get f ''location'' (JStr []) of
        Raise x \<Rightarrow> Raise x
      | Ret loc \<Rightarrow>
          if truthy loc \<and> loc \<notin> set (map JStr [[], ''private'', ''offline'', ''traveling''])
          then (case py_split loc CHR '':'' of
                  Raise x \<Rightarrow> Raise x
                | Ret parts \<Rightarrow>
                    (let wid = hd parts in
                     scan_worlds cache fs
                       (if wid \<notin> set (map fst cache) \<and> wid \<notin> set acc then acc @ [wid] else acc)))
          else scan_worlds cache fs acc)"

text \<open>The dict built from a successful world lookup, the placeholder of a failed one, and
  the in-place \<open>update\<close> of the refresh. On a value that is not a dict \<open>wdata.get\<close>
  raises.\<close>

definition world_fields :: "nat \<Rightarrow> string \<Rightarrow> json \<Rightarrow> world_rec res" where
  "world_fields oid wid wdata =
     (case wdata of
        JObj kvs \<Rightarrow>
          Ret \<lparr>w_oid = oid,
               w_name = dget kvs ''name'' (JStr wid),
               w_authorName = dget kvs ''authorName'' (JStr []),
               w_visits = dget kvs ''visits'' (JNum 0),
               w_favorites = dget kvs ''favorites'' (JNum 0),
               w_occupants = dget kvs ''occupants'' (JNum 0),
               w_heat = dget kvs ''heat'' (JNum 0)\<rparr>
      | _ \<Rightarrow> Raise AttributeError)"

definition placeholder :: "nat \<Rightarrow> string \<Rightarrow> world_rec" where
  "placeholder oid wid =
     \<lparr>w_oid = oid, w_name = JStr wid, w_authorName = JStr [], w_visits = JNum 0,
      w_favorites = JNum 0, w_occupants = JNum 0, w_heat = JNum 0\<rparr>"

definition world_insert :: "string \<Rightarrow> world_rec \<Rightarrow> state \<Rightarrow> state" where
  "world_insert wid r s =
     s\<lparr>world_cache := AList.update wid r (world_cache s), next_oid := Suc (next_oid s)\<rparr>"

text \<open>The lookup loop, with its counter \<open>resolved\<close> and the cap \<open>MAX_WORLD_LOOKUPS\<close>.\<close>

fun resolve_worlds :: "env \<Rightarrow> string list \<Rightarrow> int \<Rightarrow> state \<Rightarrow> unit res \<times> state" where
  "resolve_worlds e [] resolved s = (Ret (), s)"
| "resolve_worlds e (wid # rest) resolved s =
     (if resolved \<ge> MAX_WORLD_LOOKUPS e then (Ret (), s)
      else
        (case client_get e (''/worlds/'' @ wid) [] s of
           (wdata, s1) \<Rightarrow>
             (case (if truthy wdata then py_in ''name'' wdata else Ret False) of
                Raise x \<Rightarrow> (Raise x, s1)
              | Ret True \<Rightarrow>
                  (case world_fields (next_oid s1) wid wdata of
                     Raise x \<Rightarrow> (Raise x, s1)
                   | Ret r \<Rightarrow> resolve_worlds e rest (resolved + 1) (world_insert wid r s1))
              | Ret False \<Rightarrow>
                  resolve_worlds e rest (resolved + 1)
                    (world_insert wid (placeholder (next_oid s1) wid) s1))))"

text \<open>Second pass: the dict \<open>unknown_instances\<close>, key to (world id, instance id). In
  \<open>loc and ":" in loc and ...\<close> the membership test raises on a truthy number.\<close>

fun scan_instances ::
  "(string \<times> inst_rec) list \<Rightarrow> json list \<Rightarrow> (string \<times> string \<times> string) list
     \<Rightarrow> (string \<times> string \<times> string) list res" where
  "scan_instances cache [] acc = Ret acc"
| "scan_instances cache (f # fs) acc =
     (case py_get f ''location'' (JStr []) of
        Raise x \<Rightarrow> Raise x
      | Ret loc \<Rightarrow>
          (case (if truthy loc then py_in '':'' loc else Ret False) of
             Raise x \<Rightarrow> Raise x
           | Ret has_colon \<Rightarrow>
               if has_colon \<and> loc \<notin> set (map JStr [''private'', ''offline'', ''traveling''])
               then (case py_split loc CHR '':'' of
                       Raise x \<Rightarrow> Raise x
                     | Ret parts \<Rightarrow>
                         (case parts of
                            wid # p1 # _ \<Rightarrow>
                              (let iid = hd (split_on CHR ''~'' p1);
                                   key = wid @ '':'' @ iid
                               in scan_instances cache fs
                                    (if key \<notin> set (map fst cache)
                                     then AList.update key (wid, iid) acc else acc))
                          | _ \<Rightarrow> Raise IndexError))
               else scan_instances cache fs acc))"

definition world_name_of :: "state \<Rightarrow> string \<Rightarrow> json" where
  "world_name_of s wid = (case map_of (world_cache s) wid of None \<Rightarrow> JStr wid | Some r \<Rightarrow> w_name r)"

definition inst_fields :: "nat \<Rightarrow> state \<Rightarrow> string \<Rightarrow> string \<Rightarrow> json \<Rightarrow> inst_rec res" where
  "inst_fields oid s wid iid inst =
     (case inst of
        JObj kvs \<Rightarrow>
          Ret \<lparr>i_oid = oid,
               i_playerCount = dget kvs ''n_users'' (dget kvs ''userCount'' (JNum 0)),
               i_region = dget kvs ''region'' (JStr ''us''),
               i_type = dget kvs ''type'' (JStr ''public''),
               i_world_name = world_name_of s wid,
               i_world_id = wid,
               i_instance_id = iid\<rparr>
      | _ \<Rightarrow> Raise AttributeError)"

definition inst_insert :: "string \<Rightarrow> inst_rec \<Rightarrow> state \<Rightarrow> state" where
  "inst_insert key r s =
     s\<lparr>instance_cache := AList.update key r (instance_cache s), next_oid := Suc (next_oid s)\<rparr>"

text \<open>The instance lookups, over the first 20 items of \<open>unknown_instances\<close>: nothing is
  stored when the lookup returns a falsy value.\<close>

fun resolve_instances :: "env \<Rightarrow> (string \<times> string \<times> string) list \<Rightarrow> state \<Rightarrow> unit res \<times> state" where
  "resolve_instances e [] s = (Ret (), s)"
| "resolve_instances e ((key, wid, iid) # rest) s =
     (case client_get e (''/instances/'' @ wid @ '':'' @ iid) [] s of
        (inst, s1) \<Rightarrow>
          if truthy inst
          then (case inst_fields (next_oid s1) s1 wid iid inst of
                  Raise x \<Rightarrow> (Raise x, s1)
                | Ret r \<Rightarrow> resolve_instances e rest (inst_insert key r s1))
          else resolve_instances e rest s1)"

text \<open>Third pass: the three count dicts and one detail gauge per friend.\<close>

record counts =
  status_counts :: "(json \<times> int) list"
  platform_counts :: "(json \<times> int) list"
  world_counts :: "(string \<times> int) list"

definition or_unknown :: "json \<Rightarrow> json" where
  "or_unknown v = (if truthy v then v else JStr ''unknown'')"

definition friend_detail :: "env \<Rightarrow> json \<Rightarrow> counts \<Rightarrow> state \<Rightarrow> counts res \<times> state" where
  "friend_detail e f c s =
     (case f of
        JObj kvs \<Rightarrow>
          (let status = dget kvs ''status'' (JStr ''offline'');
               platform = dget kvs ''last_platform'' (JStr ''unknown'');
               name = dget kvs ''displayName'' (JStr ''unknown'');
               avatar_name = or_unknown (dget kvs ''currentAvatarName'' (JStr ''unknown''));
               loc = dget kvs ''location'' (JStr [])
           in case count_bump status (status_counts c) of
                Raise x \<Rightarrow> (Raise x, s)
              | Ret sc \<Rightarrow>
                 (case count_bump platform (platform_counts c) of
                    Raise x \<Rightarrow> (Raise x, s)
                  | Ret pc \<Rightarrow>
                     (case (if truthy loc \<and> loc \<notin> set (map JStr [[], ''private'', ''offline'', ''traveling''])
                            then py_in '':'' loc else Ret False) of
                        Raise x \<Rightarrow> (Raise x, s)
                      | Ret True \<Rightarrow>
                          (case loc of
                             JStr l \<Rightarrow>
                               (let wid = hd (split_on CHR '':'' l);
                                    wc = AList.update wid
                                           ((case map_of (world_counts c) wid of None \<Rightarrow> 0 | Some n \<Rightarrow> n) + 1)
                                           (world_counts c)
                                in (Ret \<lparr>status_counts = sc, platform_counts = pc, world_counts = wc\<rparr>,
                                    gauge_put FRIEND_DETAIL
                                      [py_str e name, py_str e status, py_str e platform,
                                       py_str e (world_name_of s wid), parse_instance_type l,
                                       py_str e avatar_name] 1 s))
                           | _ \<Rightarrow> (Raise AttributeError, s))
                      | Ret False \<Rightarrow>
                          (Ret \<lparr>status_counts = sc, platform_counts = pc, world_counts = world_counts c\<rparr>,
                           gauge_put FRIEND_DETAIL
                             [py_str e name, py_str e status, py_str e platform,
                              py_str e (or_unknown loc), py_str e (or_unknown loc),
                              py_str e avatar_name] 1 s))))
      | _ \<Rightarrow> (Raise AttributeError, s))"

fun friend_details :: "env \<Rightarrow> json list \<Rightarrow> counts \<Rightarrow> state \<Rightarrow> counts res \<times> state" where
  "friend_details e [] c s = (Ret c, s)"
| "friend_details e (f # fs) c s =
     (case friend_detail e f c s of
        (Raise x, s1) \<Rightarrow> (Raise x, s1)
      | (Ret c1, s1) \<Rightarrow> friend_details e fs c1 s1)"

text \<open>\<open>for label, count in d.items(): G.labels(label).set(count)\<close>.\<close>

fun push_counts :: "env \<Rightarrow> metric \<Rightarrow> (json \<times> int) list \<Rightarrow> state \<Rightarrow> state" where
  "push_counts e m [] s = s"
| "push_counts e m ((label, n) # rest) s =
     push_counts e m rest (gauge_put m [py_str e label] (of_int n) s)"

fun push_world_counts :: "env \<Rightarrow> (string \<times> int) list \<Rightarrow> state \<Rightarrow> state" where
  "push_world_counts e [] s = s"
| "push_world_counts e ((wid, n) # rest) s =
     push_world_counts e rest
       (gauge_put FRIEND_WORLD_GAUGE [py_str e (world_name_of s wid), wid] (of_int n) s)"

text \<open>The body of \<open>collect_friends_online\<close> after the pages are fetched.\<close>

definition friends_online_body :: "env \<Rightarrow> json list \<Rightarrow> state \<Rightarrow> unit res \<times> state" where
  "friends_online_body e all_friends s0 =
     (let s1 = metrics_clear FRIEND_DETAIL s0 in
      case scan_worlds (world_cache s1) all_friends [] of
        Raise x \<Rightarrow> (Raise x, s1)
      | Ret unknown_world_ids \<Rightarrow>
          seq (resolve_worlds e (set_order e unknown_world_ids) 0 s1)
            (\<lambda>_ s2. case scan_instances (instance_cache s2) all_friends [] of
                Raise x \<Rightarrow> (Raise x, s2)
              | Ret unknown_instances \<Rightarrow>
                  seq (resolve_instances e (take 20 unknown_instances) s2)
                    (\<lambda>_ s3. seq (friend_details e all_friends
                                    \<lparr>status_counts = [], platform_counts = [], world_counts = []\<rparr> s3)
                      (\<lambda>c s4.
                         (Ret (),
                          push_world_counts e (world_counts c)
                            (metrics_clear FRIEND_WORLD_GAUGE
                               (push_counts e FRIEND_PLATFORM_GAUGE (platform_counts c)
                                  (push_counts e FRIEND_STATUS_GAUGE (status_counts c) s4))))))))"

definition collect_friends_online :: "env \<Rightarrow> state \<Rightarrow> (unit res \<times> state) option" where
  "collect_friends_online e s =
     (case fetch_pages e ''/auth/user/friends'' (friends_params ''false'') 0 [] s of
        None \<Rightarrow> None
      | Some (all_friends, s0) \<Rightarrow> Some (friends_online_body e all_friends s0))"

subsection \<open>Collector: offline friends\<close>

definition collect_friends_offline :: "env \<Rightarrow> state \<Rightarrow> (unit res \<times> state) option" where
  "collect_friends_offline e s =
     (case fetch_pages e ''/auth/user/friends'' (friends_params ''true'') 0 [] s of
        None \<Rightarrow> None
      | Some (all_offline, s1) \<Rightarrow>
          Some (Ret (), gauge_put FRIENDS_OFFLINE [] (of_nat (length all_offline)) s1))"

subsection \<open>Collector: world refresh\<close>

text \<open>\<open>_world_cache[wid].update({...})\<close>: the six fields of the existing dict are
  overwritten; the dict object stays the same.\<close>

definition world_update :: "string \<Rightarrow> json \<Rightarrow> world_rec \<Rightarrow> world_rec res" where
  "world_update wid wdata r =
     (case wdata of
        JObj kvs \<Rightarrow>
          Ret (r\<lparr>w_name := dget kvs ''name'' (JStr wid),
                 w_authorName := dget kvs ''authorName'' (JStr []),
                 w_visits := dget kvs ''visits'' (JNum 0),
                 w_favorites := dget kvs ''favorites'' (JNum 0),
                 w_occupants := dget kvs ''occupants'' (JNum 0),
                 w_heat := dget kvs ''heat'' (JNum 0)\<rparr>)
      | _ \<Rightarrow> Raise AttributeError)"

fun refresh_worlds :: "env \<Rightarrow> string list \<Rightarrow> int \<Rightarrow> state \<Rightarrow> unit res \<times> state" where
  "refresh_worlds e [] refreshed s = (Ret (), s)"
| "refresh_worlds e (wid # rest) refreshed s =
     (if refreshed \<ge> MAX_WORLD_LOOKUPS e then (Ret (), s)
      else
        (case client_get e (''/worlds/'' @ wid) [] s of
           (wdata, s1) \<Rightarrow>
             (case (if truthy wdata then py_in ''name'' wdata else Ret False) of
                Raise x \<Rightarrow> (Raise x, s1)
              | Ret True \<Rightarrow>
                  (case map_of (world_cache s1) wid of
                     None \<Rightarrow> (Raise KeyError, s1)
                   | Some r \<Rightarrow>
                       (case world_update wid wdata r of
                          Raise x \<Rightarrow> (Raise x, s1)
                        | Ret r' \<Rightarrow>
                            refresh_worlds e rest (refreshed + 1)
                              (s1\<lparr>world_cache := AList.update wid r' (world_cache s1)\<rparr>)))
              | Ret False \<Rightarrow> refresh_worlds e rest (refreshed + 1) s1)))"

text \<open>The four gauges of every cached world.\<close>

fun push_worlds :: "env \<Rightarrow> (string \<times> world_rec) list \<Rightarrow> state \<Rightarrow> unit res \<times> state" where
  "push_worlds e [] s = (Ret (), s)"
| "push_worlds e ((wid, info) # rest) s =
     (let wname = py_str e (w_name info); author = py_str e (w_authorName info) in
      seq (gauge_set e WORLD_VISITS [wid, wname, author] (w_visits info) s)
        (\<lambda>_ s1. seq (gauge_set e WORLD_FAVORITES [wid, wname] (w_favorites info) s1)
        (\<lambda>_ s2. seq (gauge_set e WORLD_OCCUPANTS [wid, wname] (w_occupants info) s2)
        (\<lambda>_ s3. seq (gauge_set e WORLD_HEAT [wid, wname] (w_heat info) s3)
        (\<lambda>_ s4. push_worlds e rest s4)))))"

definition collect_world_metrics :: "env \<Rightarrow> state \<Rightarrow> unit res \<times> state" where
  "collect_world_metrics e s =
     (if world_cache s = [] then (Ret (), s)
      else
        seq (refresh_worlds e (map fst (world_cache s)) 0 s)
          (\<lambda>_ s1. seq (push_worlds e (world_cache s1) s1)
          (\<lambda>_ s2. (Ret (), gauge_put WORLDS_CACHED [] (of_nat (length (world_cache s2))) s2))))"

subsection \<open>Collector: instance refresh\<close>

definition inst_update :: "json \<Rightarrow> inst_rec \<Rightarrow> inst_rec res" where
  "inst_update inst info =
     (case inst of
        JObj kvs \<Rightarrow>
          Ret (info\<lparr>i_playerCount := dget kvs ''n_users'' (dget kvs ''userCount'' (i_playerCount info)),
                    i_region := dget kvs ''region'' (i_region info),
                    i_type := dget kvs ''type'' (i_type info)\<rparr>)
      | _ \<Rightarrow> Raise AttributeError)"

text \<open>The loop over the items of the instance cache: the keys are those at the start of
  the loop, each record is the live dict.\<close>

fun refresh_instances :: "env \<Rightarrow> string list \<Rightarrow> state \<Rightarrow> unit res \<times> state" where
  "refresh_instances e [] s = (Ret (), s)"
| "refresh_instances e (key # rest) s =
     (case map_of (instance_cache s) key of
        None \<Rightarrow> refresh_instances e rest s
      | Some info \<Rightarrow>
          (let wid = i_world_id info; iid = i_instance_id info in
           case client_get e (''/instances/'' @ wid @ '':'' @ iid) [] s of
             (inst, s1) \<Rightarrow>
               (case (if truthy inst then inst_update inst info else Ret info) of
                  Raise x \<Rightarrow> (Raise x, s1)
                | Ret info' \<Rightarrow>
                    (let s2 = s1\<lparr>instance_cache := AList.update key info' (instance_cache s1)\<rparr> in
                     seq (gauge_set e INSTANCE_PLAYER_COUNT
                            [wid, py_str e (world_name_of s2 wid), iid,
                             py_str e (i_type info'), py_str e (i_region info')]
                            (i_playerCount info') s2)
                       (\<lambda>_ s3. refresh_instances e rest s3)))))"

definition collect_instance_metrics :: "env \<Rightarrow> state \<Rightarrow> unit res \<times> state" where
  "collect_instance_metrics e s =
     (let s0 = metrics_clear INSTANCE_PLAYER_COUNT s in
      refresh_instances e (map fst (instance_cache s0)) s0)"

subsection \<open>Collector: favorites\<close>

definition fav_tag :: "json \<Rightarrow> json res" where
  "fav_tag fav =
     (case fav of
        JObj kvs \<Rightarrow>
          if truthy (dget kvs ''tags'' JNull)
          then py_index0 (dget kvs ''tags'' (JArr [JStr ''unknown'']))
          else Ret (dget kvs ''type'' (JStr ''unknown''))
      | _ \<Rightarrow> Raise AttributeError)"

fun count_tags :: "json list \<Rightarrow> (json \<times> int) list \<Rightarrow> (json \<times> int) list res" where
  "count_tags [] d = Ret d"
| "count_tags (fav # rest) d =
     (case fav_tag fav of
        Raise x \<Rightarrow> Raise x
      | Ret tag \<Rightarrow> (case count_bump tag d of Raise x \<Rightarrow> Raise x | Ret d' \<Rightarrow> count_tags rest d'))"

definition collect_favorites :: "env \<Rightarrow> state \<Rightarrow> (unit res \<times> state) option" where
  "collect_favorites e s =
     (case fetch_pages e ''/favorites'' (favorites_params ''world'') 0 [] s of
        None \<Rightarrow> None
      | Some (favs1, s1) \<Rightarrow>
     (case fetch_pages e ''/favorites'' (favorites_params ''avatar'') 0 favs1 s1 of
        None \<Rightarrow> None
      | Some (favs2, s2) \<Rightarrow>
     (case fetch_pages e ''/favorites'' (favorites_params ''friend'') 0 favs2 s2 of
        None \<Rightarrow> None
      | Some (all_favs, s3) \<Rightarrow>
          Some (case count_tags all_favs [] of
                  Raise x \<Rightarrow> (Raise x, s3)
                | Ret tag_counts \<Rightarrow>
                    (Ret (), push_counts e FAVORITES_TOTAL tag_counts
                               (metrics_clear FAVORITES_TOTAL s3))))))"

subsection \<open>The scrape cycle and the main loop\<close>

text \<open>\<open>scrape_all\<close>: no collector call is wrapped in a \<open>try\<close>. \<open>cycle %
  OFFLINE_SCRAPE_CYCLES\<close> raises when the cadence is configured as 0.\<close>

definition scrape_all :: "env \<Rightarrow> int \<Rightarrow> state \<Rightarrow> (unit res \<times> state) option" where
  "scrape_all e cycle s =
     (let start = clock s in
      seq_opt (Some (collect_platform e s)) (\<lambda>_ s1.
      seq_opt (Some (collect_current_user e s1)) (\<lambda>_ s2.
      seq_opt (collect_friends_online e s2) (\<lambda>_ s3.
      seq_opt (Some (collect_world_metrics e s3)) (\<lambda>_ s4.
      seq_opt (Some (if instance_cache s4 \<noteq> [] then collect_instance_metrics e s4 else (Ret (), s4))) (\<lambda>_ s5.
      seq_opt (if OFFLINE_SCRAPE_CYCLES e = 0 then Some (Raise ZeroDivisionError, s5)
               else if cycle mod OFFLINE_SCRAPE_CYCLES e = 0 then collect_friends_offline e s5
               else Some (Ret (), s5)) (\<lambda>_ s6.
      seq_opt (if cycle mod 3 = 0 then collect_favorites e s6 else Some (Ret (), s6)) (\<lambda>_ s7.
        Some (Ret (),
              gauge_put SCRAPE_CYCLE_NUM [] (of_int cycle)
                (gauge_put LAST_SCRAPE_TS [] (clock s7)
                   (gauge_put SCRAPE_DURATION [] (clock s7 - start) s7)))))))))))"

text \<open>\<open>authenticate\<close>. The session's cookie and headers are part of the outside world.
  After \<open>"id" in resp\<close> the next statement calls \<open>resp.get\<close>.\<close>

definition authenticate :: "env \<Rightarrow> state \<Rightarrow> bool res \<times> state" where
  "authenticate e s =
     (if AUTH_COOKIE e \<noteq> [] then
        (case client_get e ''/auth/user'' [] s of
           (resp, s1) \<Rightarrow>
             (case (if truthy resp then py_in ''id'' resp else Ret False) of
                Raise x \<Rightarrow> (Raise x, s1)
              | Ret True \<Rightarrow>
                  (case resp of
                     JObj kvs \<Rightarrow> (Ret True, s1\<lparr>authenticated := True\<rparr>)
                   | _ \<Rightarrow> (Raise AttributeError, s1))
              | Ret False \<Rightarrow> (Ret False, s1)))
      else if USERNAME e \<noteq> [] \<and> PASSWORD e \<noteq> [] then
        (case client_get e ''/auth/user'' [] s of
           (resp, s1) \<Rightarrow>
             (case (if truthy resp then py_in ''id'' resp else Ret False) of
                Raise x \<Rightarrow> (Raise x, s1)
              | Ret True \<Rightarrow>
                  (case resp of
                     JObj kvs \<Rightarrow>
                       if truthy (dget kvs ''requiresTwoFactorAuth'' JNull) then (Ret False, s1)
                       else (Ret True, s1\<lparr>authenticated := True\<rparr>)
                   | _ \<Rightarrow> (Raise AttributeError, s1))
              | Ret False \<Rightarrow> (Ret False, s1)))
      else (Ret False, s))"

text \<open>One iteration of the \<open>while True\<close> loop of \<open>main\<close>, from the loop variable \<open>cycle\<close>
  and the state to the new value of \<open>cycle\<close>. The handler counts any exception of the
  \<open>try\<close> block under \<open>main_loop\<close>; the sleep that follows is outside the \<open>try\<close>
  (\<open>time.sleep\<close> raises on a negative interval, which ends the process).\<close>

definition sleep_interval :: "env \<Rightarrow> state \<Rightarrow> unit res \<times> state" where
  "sleep_interval e s =
     (if SCRAPE_INTERVAL e < 0 then (Raise ValueError, s)
      else (Ret (), s\<lparr>clock := clock s + of_int (SCRAPE_INTERVAL e)\<rparr>))"

definition after_try :: "env \<Rightarrow> int \<Rightarrow> 'a res \<times> state \<Rightarrow> int res \<times> state" where
  "after_try e cycle m =
     (case m of
        (r, s) \<Rightarrow>
          (let s1 = (case r of Raise x \<Rightarrow> counter_inc SCRAPE_ERRORS [''main_loop''] s | Ret _ \<Rightarrow> s) in
           case sleep_interval e s1 of
             (Raise x, s2) \<Rightarrow> (Raise x, s2)
           | (Ret _, s2) \<Rightarrow> (Ret cycle, s2)))"

definition run_cycle :: "env \<Rightarrow> int \<Rightarrow> state \<Rightarrow> (int res \<times> state) option" where
  "run_cycle e cycle s =
     (case scrape_all e (cycle + 1) s of
        None \<Rightarrow> None
      | Some m \<Rightarrow> Some (after_try e (cycle + 1) m))"

definition main_tick :: "env \<Rightarrow> int \<Rightarrow> state \<Rightarrow> (int res \<times> state) option" where
  "main_tick e cycle s =
     (if \<not> authenticated s then
        (case authenticate e s of
           (Raise x, s1) \<Rightarrow> Some (after_try e cycle (Raise x :: unit res, s1))
         | (Ret ok, s1) \<Rightarrow>
             if \<not> ok then Some (Ret cycle, s1\<lparr>clock := clock s1 + 60\<rparr>)
             else run_cycle e cycle s1)
      else run_cycle e cycle s)"

text \<open>The state of a fresh process at wall-clock time \<open>t\<close>: empty caches, a client that
  has issued no request, unlabelled gauges at 0.\<close>

definition labelled :: "metric \<Rightarrow> bool" where
  "labelled m = (m \<in> set [FRIEND_STATUS_GAUGE, FRIEND_PLATFORM_GAUGE, FRIEND_WORLD_GAUGE,
     FRIEND_DETAIL, WORLD_VISITS, WORLD_FAVORITES, WORLD_OCCUPANTS, WORLD_HEAT,
     FAVORITES_TOTAL, INSTANCE_PLAYER_COUNT, SCRAPE_ERRORS])"

definition init_state :: "real \<Rightarrow> state" where
  "init_state t =
     \<lparr>clock = t, authenticated = False, last_request_time = 0, requests = [],
      observations = [], world_cache = [], instance_cache = [], next_oid = 0,
      metrics = (\<lambda>k. if \<not> labelled (fst k) \<and> snd k = [] then Some 0 else None),
      user_info = [], user_status = ''active''\<rparr>"

text \<open>\<open>n\<close> iterations of the loop of \<open>main\<close>; an exception that escapes an iteration ends
  the process.\<close>

fun main_ticks :: "env \<Rightarrow> nat \<Rightarrow> int \<Rightarrow> state \<Rightarrow> (int res \<times> state) option" where
  "main_ticks e 0 cycle s = Some (Ret cycle, s)"
| "main_ticks e (Suc n) cycle s =
     (case main_tick e cycle s of
        None \<Rightarrow> None
      | Some (Raise x, s1) \<Rightarrow> Some (Raise x, s1)
      | Some (Ret cycle1, s1) \<Rightarrow> main_ticks e n cycle1 s1)"

subsection \<open>A concrete environment\<close>

text \<open>An environment for worked examples: the default configuration, an API that answers
  \<open>/visits\<close> with a number and \<open>/auth/user\<close> with a profile whose \<open>tags\<close> field is
  \<open>null\<close>, and fails every other request; each request takes one second.\<close>

definition demo_env :: env where
  "demo_env = \<lparr>REQUEST_DELAY = 3/2, MAX_WORLD_LOOKUPS = 40, OFFLINE_SCRAPE_CYCLES = 5,
      SCRAPE_INTERVAL = 120, AUTH_COOKIE = ''cookie'', USERNAME = [], PASSWORD = [],
      upstream = (\<lambda>n ep ps. if ep = ''/visits'' then Response 200 (JNum 5)
                  else if ep = ''/auth/user''
                  then Response 200 (JObj [(''id'', JStr ''usr_1''), (''tags'', JNull)])
                  else RequestException),
      latency = (\<lambda>n. 1), set_order = (\<lambda>xs. xs), repr = (\<lambda>v. ''?''),
      float_of_str = (\<lambda>s. None)\<rparr>"

text \<open>A second environment, with three online friends: one in a group instance of world
  \<open>wrld_a\<close> (which the API knows), one in a public instance of world \<open>wrld_b\<close> (whose
  lookups fail, as do the lookups of its instance), one in a private location.\<close>

definition busy_friends :: "json list" where
  "busy_friends =
     [JObj [(''displayName'', JStr ''Ann''), (''status'', JStr ''active''),
            (''last_platform'', JStr ''standalonewindows''),
            (''location'', JStr ''wrld_a:1~group(grp_1)'')],
      JObj [(''displayName'', JStr ''Bob''), (''status'', JStr ''busy''),
            (''last_platform'', JStr ''android''),
            (''location'', JStr ''wrld_b:2'')],
      JObj [(''displayName'', JStr ''Cy''), (''status'', JStr ''active''),
            (''last_platform'', JStr ''standalonewindows''),
            (''location'', JStr ''private'')]]"

definition busy_env :: env where
  "busy_env = \<lparr>REQUEST_DELAY = 3/2, MAX_WORLD_LOOKUPS = 40, OFFLINE_SCRAPE_CYCLES = 5,
      SCRAPE_INTERVAL = 120, AUTH_COOKIE = ''cookie'', USERNAME = [], PASSWORD = [],
      upstream = (\<lambda>n ep ps.
         if ep = ''/visits'' then Response 200 (JNum 5)
         else if ep = ''/auth/user''
         then Response 200 (JObj [(''id'', JStr ''usr_1''),
                                  (''tags'', JArr [JStr ''system_trust_known''])])
         else if ep = ''/auth/user/friends''
         then (if map_of ps ''offline'' = Some (JStr ''false'') \<and> map_of ps ''offset'' = Some (JNum 0)
               then Response 200 (JArr busy_friends) else Response 200 (JArr []))
         else if ep = ''/worlds/wrld_a''
         then Response 200 (JObj [(''name'', JStr ''Alpha''), (''visits'', JNum 7)])
         else if ep = ''/instances/wrld_a:1''
         then Response 200 (JObj [(''n_users'', JNum 3), (''type'', JStr ''group'')])
         else if ep = ''/favorites'' then Response 200 (JArr [])
         else Response 404 JNull),
      latency = (\<lambda>n. 1), set_order = (\<lambda>xs. xs), repr = (\<lambda>v. ''?''),
      float_of_str = (\<lambda>s. None)\<rparr>"

text \<open>A state left by an earlier collection in which four friends had the status
  \<open>join me\<close> and three were on the platform \<open>ios\<close>.\<close>

definition stale_state :: state where
  "stale_state =
     gauge_put FRIEND_PLATFORM_GAUGE [''ios''] 3
       (gauge_put FRIEND_STATUS_GAUGE [''join me''] 4
          (gauge_put FRIEND_DETAIL [''Zed'', ''join me'', ''ios'', ''private'', ''private'', ''unknown''] 1
             (init_state 1000)))"

text \<open>A state of an authenticated process whose world cache holds one placeholder.\<close>

definition cached_state :: state where
  "cached_state =
     (init_state 1000)\<lparr>authenticated := True,
        world_cache := [(''wrld_a'', placeholder 0 ''wrld_a'')], next_oid := 1\<rparr>"

text \<open>A third environment, in which the API is unreachable: every request fails at the
  transport level.\<close>

definition down_env :: env where
  "down_env = \<lparr>REQUEST_DELAY = 3/2, MAX_WORLD_LOOKUPS = 40, OFFLINE_SCRAPE_CYCLES = 5,
      SCRAPE_INTERVAL = 120, AUTH_COOKIE = ''cookie'', USERNAME = [], PASSWORD = [],
      upstream = (\<lambda>n ep ps. RequestException),
      latency = (\<lambda>n. 1), set_order = (\<lambda>xs. xs), repr = (\<lambda>v. ''?''),
      float_of_str = (\<lambda>s. None)\<rparr>"

text \<open>The second environment with a lookup cap of one world per cycle.\<close>

definition capped_env :: env where
  "capped_env = busy_env\<lparr>MAX_WORLD_LOOKUPS := 1\<rparr>"

text \<open>A fourth environment: a friend list of 100 friends, each in a world of their own,
  served as one full page followed by an empty page; every other request is answered
  404. The lookup cap is the default 40.\<close>

definition world_no :: "nat \<Rightarrow> string" where
  "world_no i = ''wrld_'' @ replicate i CHR ''x''"

definition crowd :: "json list" where
  "crowd = map (\<lambda>i. JObj [(''location'', JStr (world_no i @ '':1''))]) [0..<100]"

definition crowd_env :: env where
  "crowd_env = \<lparr>REQUEST_DELAY = 3/2, MAX_WORLD_LOOKUPS = 40, OFFLINE_SCRAPE_CYCLES = 5,
      SCRAPE_INTERVAL = 120, AUTH_COOKIE = ''cookie'', USERNAME = [], PASSWORD = [],
      upstream = (\<lambda>n ep ps.
         if ep = ''/auth/user/friends''
         then (if ps = friends_params ''false'' 0 then Response 200 (JArr crowd)
               else Response 200 (JArr []))
         else Response 404 JNull),
      latency = (\<lambda>n. 1), set_order = (\<lambda>xs. xs), repr = (\<lambda>v. ''?''),
      float_of_str = (\<lambda>s. None)\<rparr>"

text \<open>The same, except that a world lookup is answered 200 with the JSON number 5.\<close>

definition odd_env :: env where
  "odd_env = crowd_env\<lparr>upstream := (\<lambda>n ep ps.
         if ep = ''/auth/user/friends''
         then (if ps = friends_params ''false'' 0 then Response 200 (JArr crowd)
               else Response 200 (JArr []))
         else if prefix ''/worlds/'' ep then Response 200 (JNum 5)
         else Response 404 JNull)\<rparr>"

subsection \<open>Notions used to state the properties\<close>

text \<open>What \<open>_get\<close> returns when it is the \<open>n\<close>-th request of the process.\<close>

definition get_result :: "env \<Rightarrow> nat \<Rightarrow> string \<Rightarrow> (string \<times> json) list \<Rightarrow> json" where
  "get_result e n endpoint params =
     (case upstream e n endpoint params of
        RequestException \<Rightarrow> JNull
      | Response code body \<Rightarrow> if code = 200 then body else JNull)"

text \<open>Upstream world data does not change: the answer to a world lookup does not depend
  on when it is asked.\<close>

definition world_data_stable :: "env \<Rightarrow> bool" where
  "world_data_stable e =
     (\<forall>n m wid. upstream e n (''/worlds/'' @ wid) [] = upstream e m (''/worlds/'' @ wid) [])"

text \<open>Two states that differ at most in the metrics registry.\<close>

definition metrics_only :: "state \<Rightarrow> state \<Rightarrow> bool" where
  "metrics_only s s' =
     (clock s' = clock s \<and> authenticated s' = authenticated s
      \<and> last_request_time s' = last_request_time s \<and> requests s' = requests s
      \<and> observations s' = observations s \<and> world_cache s' = world_cache s
      \<and> instance_cache s' = instance_cache s \<and> next_oid s' = next_oid s)"

text \<open>The iteration order of a set enumerates the set: each element once.\<close>

definition valid_set_order :: "env \<Rightarrow> bool" where
  "valid_set_order e =
     (\<forall>xs. distinct xs \<longrightarrow> distinct (set_order e xs) \<and> set (set_order e xs) = set xs)"

text \<open>Every key of either cache in \<open>s\<close> is still a key in \<open>s'\<close>, bound to the same dict
  object.\<close>

definition cache_kept :: "state \<Rightarrow> state \<Rightarrow> bool" where
  "cache_kept s s' =
     ((\<forall>k r. map_of (world_cache s) k = Some r
          \<longrightarrow> (\<exists>r'. map_of (world_cache s') k = Some r' \<and> w_oid r' = w_oid r))
      \<and> (\<forall>k r. map_of (instance_cache s) k = Some r
          \<longrightarrow> (\<exists>r'. map_of (instance_cache s') k = Some r' \<and> i_oid r' = i_oid r)))"

text \<open>Two states with the same caches.\<close>

definition caches_same :: "state \<Rightarrow> state \<Rightarrow> bool" where
  "caches_same s s' =
     (world_cache s' = world_cache s \<and> instance_cache s' = instance_cache s
      \<and> next_oid s' = next_oid s)"

text \<open>The world a friend record refers to (none for a sentinel or empty location), and
  the world ids that a friend list references and that are absent from the world cache.\<close>

definition referenced_world :: "json \<Rightarrow> string option" where
  "referenced_world f =
     (case f of
        JObj kvs \<Rightarrow>
          (case dget kvs ''location'' (JStr []) of
             JStr loc \<Rightarrow>
               if loc \<noteq> [] \<and> loc \<notin> set [''private'', ''offline'', ''traveling'']
               then Some (hd (split_on CHR '':'' loc)) else None
           | _ \<Rightarrow> None)
      | _ \<Rightarrow> None)"

definition unknown_worlds :: "(string \<times> world_rec) list \<Rightarrow> json list \<Rightarrow> string set" where
  "unknown_worlds cache fs =
     set (filter (\<lambda>wid. wid \<notin> set (map fst cache)) (List.map_filter referenced_world fs))"

text \<open>The dict that the lookup loop stores for a world whose lookup returned \<open>w\<close> (in a
  run of the loop that does not raise): the fields of \<open>w\<close> when it is a dict with a
  \<open>name\<close>, the placeholder otherwise.\<close>

definition world_entry :: "nat \<Rightarrow> string \<Rightarrow> json \<Rightarrow> world_rec" where
  "world_entry oid wid w =
     (case w of
        JObj kvs \<Rightarrow>
          if ''name'' \<in> set (map fst kvs)
          then \<lparr>w_oid = oid,
                w_name = dget kvs ''name'' (JStr wid),
                w_authorName = dget kvs ''authorName'' (JStr []),
                w_visits = dget kvs ''visits'' (JNum 0),
                w_favorites = dget kvs ''favorites'' (JNum 0),
                w_occupants = dget kvs ''occupants'' (JNum 0),
                w_heat = dget kvs ''heat'' (JNum 0)\<rparr>
          else placeholder oid wid
      | _ \<Rightarrow> placeholder oid wid)"

text \<open>A friend entry on which the passes of the online-friends collector do not raise: a
  dict whose location is a string and whose status and platform can be dict keys. A
  lookup result on which they do not raise: \<open>None\<close> or a dict.\<close>

fun plain_friend :: "json \<Rightarrow> bool" where
  "plain_friend (JObj kvs) =
     ((case dget kvs ''location'' (JStr []) of JStr l \<Rightarrow> True | _ \<Rightarrow> False)
      \<and> hashable (dget kvs ''status'' (JStr ''offline''))
      \<and> hashable (dget kvs ''last_platform'' (JStr ''unknown'')))"
| "plain_friend v = False"

fun dict_or_none :: "json \<Rightarrow> bool" where
  "dict_or_none JNull = True"
| "dict_or_none (JObj kvs) = True"
| "dict_or_none v = False"

text \<open>The gauges that \<open>scrape_all\<close> sets at the end of a cycle.\<close>

definition cycle_gauge :: "metric \<Rightarrow> bool" where
  "cycle_gauge m = (m \<in> set [SCRAPE_DURATION, LAST_SCRAPE_TS, SCRAPE_CYCLE_NUM])"

text \<open>The requests issued between two states of a run, oldest first, and the requests by
  which a run of the offline-friends collector and of the favorites collector are
  recognised: each of the two issues at least one, and no other part of the program
  issues any.\<close>

definition new_requests :: "state \<Rightarrow> state \<Rightarrow> (real \<times> string \<times> (string \<times> json) list) list" where
  "new_requests s s' = drop (length (requests s)) (requests s')"

definition offline_request :: "real \<times> string \<times> (string \<times> json) list \<Rightarrow> bool" where
  "offline_request q =
     (fst (snd q) = ''/auth/user/friends'' \<and> map_of (snd (snd q)) ''offline'' = Some (JStr ''true''))"

definition favorites_request :: "real \<times> string \<times> (string \<times> json) list \<Rightarrow> bool" where
  "favorites_request q = (fst (snd q) = ''/favorites'')"

text \<open>From \<open>s\<close> to \<open>s'\<close> the cycle gauges were not written and only requests that satisfy
  \<open>P\<close> were issued.\<close>

definition collects ::
  "(real \<times> string \<times> (string \<times> json) list \<Rightarrow> bool) \<Rightarrow> state \<Rightarrow> state \<Rightarrow> bool" where
  "collects P s s' =
     ((\<forall>k. cycle_gauge (fst k) \<longrightarrow> metrics s' k = metrics s k)
      \<and> (\<exists>new. requests s' = requests s @ new \<and> (\<forall>q \<in> set new. P q)))"

text \<open>The seven collector statements of \<open>scrape_all\<close> in their order, each with its guard,
  for cycle number \<open>cycle\<close>; and running a list of them, which stops at the first that
  raises.\<close>

definition cycle_steps :: "env \<Rightarrow> int \<Rightarrow> (state \<Rightarrow> (unit res \<times> state) option) list" where
  "cycle_steps e cycle =
     [\<lambda>s. Some (collect_platform e s),
      \<lambda>s. Some (collect_current_user e s),
      \<lambda>s. collect_friends_online e s,
      \<lambda>s. Some (collect_world_metrics e s),
      \<lambda>s. Some (if instance_cache s \<noteq> [] then collect_instance_metrics e s else (Ret (), s)),
      \<lambda>s. if OFFLINE_SCRAPE_CYCLES e = 0 then Some (Raise ZeroDivisionError, s)
           else if cycle mod OFFLINE_SCRAPE_CYCLES e = 0 then collect_friends_offline e s
           else Some (Ret (), s),
      \<lambda>s. if cycle mod 3 = 0 then collect_favorites e s else Some (Ret (), s)]"

fun run_steps ::
  "(state \<Rightarrow> (unit res \<times> state) option) list \<Rightarrow> state \<Rightarrow> (unit res \<times> state) option" where
  "run_steps [] s = Some (Ret (), s)"
| "run_steps (f # fs) s = seq_opt (f s) (\<lambda>_ s1. run_steps fs s1)"

section \<open>Properties\<close>

subsection \<open>Trust rank\<close>

lemma trust_scan_strings:
  "trust_scan (map JStr ts) =
     Ret (case List.find (\<lambda>t. map_of TRUST_RANK_MAP t \<noteq> None) ts of
            None \<Rightarrow> 0 | Some t \<Rightarrow> the (map_of TRUST_RANK_MAP t))"
  by (induction ts) (auto split: option.splits)

text \<open>
  Claim C8. The trust-rank computation scans the tag list in reverse order and returns
  the rank of the first tag found in the tag-to-rank table, 0 when no tag matches; on
  \<open>["system_trust_basic", "system_trust_known"]\<close> the result is 2, and on a list with no
  matching tag it is 0.
\<close>

theorem trust_rank_reverse_scan:
  "trust_rank_value (JArr (map JStr tags)) = Ret (trust_rank_spec tags)
   \<and> trust_rank_value (JArr [JStr ''system_trust_basic'', JStr ''system_trust_known'']) = Ret 2
   \<and> ((\<forall>t \<in> set tags. map_of TRUST_RANK_MAP t = None)
        \<longrightarrow> trust_rank_value (JArr (map JStr tags)) = Ret 0)"
proof (intro conjI impI)
  show spec: "trust_rank_value (JArr (map JStr tags)) = Ret (trust_rank_spec tags)"
    unfolding trust_rank_value_def trust_rank_spec_def
    using trust_scan_strings [of "rev tags"] by (simp only: py_reversed.simps res.case rev_map)
  show "trust_rank_value (JArr [JStr ''system_trust_basic'', JStr ''system_trust_known'']) = Ret 2"
    by (simp add: trust_rank_value_def TRUST_RANK_MAP_def)
  assume none: "\<forall>t \<in> set tags. map_of TRUST_RANK_MAP t = None"
  then have "List.find (\<lambda>t. map_of TRUST_RANK_MAP t \<noteq> None) (rev tags) = None"
    by (simp add: find_None_iff)
  then show "trust_rank_value (JArr (map JStr tags)) = Ret 0"
    using spec by (simp add: trust_rank_spec_def)
qed

theorem trust_rank_reverse_scan_witness:
  "trust_rank_value (JArr (map JStr [''system_trust_known'', ''language_eng''])) = Ret 2
   \<and> trust_rank_value (JArr (map JStr [''language_eng'', ''show_social_rank''])) = Ret 0"
proof -
  have a: "trust_rank_spec [''system_trust_known'', ''language_eng''] = 2"
    by (simp add: trust_rank_spec_def TRUST_RANK_MAP_def)
  have b: "\<forall>t \<in> set [''language_eng'', ''show_social_rank'']. map_of TRUST_RANK_MAP t = None"
    by (simp add: TRUST_RANK_MAP_def)
  have c: "trust_rank_value (JArr (map JStr [''system_trust_known'', ''language_eng''])) = Ret 2"
    using trust_rank_reverse_scan [of "[''system_trust_known'', ''language_eng'']"] a
    by (simp only:)
  have d: "trust_rank_value (JArr (map JStr [''language_eng'', ''show_social_rank''])) = Ret 0"
    using trust_rank_reverse_scan [of "[''language_eng'', ''show_social_rank'']"] b
    by blast
  show ?thesis using c d by (rule conjI)
qed

subsection \<open>Instance-type parsing\<close>

lemma tilde_free_prefix:
  "CHR ''~'' \<notin> set P \<Longrightarrow> sublist (CHR ''~'' # k) (P @ S) = sublist (CHR ''~'' # k) S"
  by (induction P) (auto simp: sublist_Cons_right)

lemma sublist_tilde_iff: "sublist ''~'' s \<longleftrightarrow> CHR ''~'' \<in> set s"
  by (induction s) (auto simp: sublist_Cons_right)

lemma marker_in_group_form:
  assumes "CHR ''~'' \<notin> set X" "CHR ''~'' \<notin> set Y" "CHR ''~'' \<notin> set Z"
  shows "sublist (CHR ''~'' # k) (''wrld_'' @ X @ '':'' @ Y @ ''~group('' @ Z @ '')'')
         \<longleftrightarrow> prefix k (''group('' @ Z @ '')'')"
proof -
  have P: "CHR ''~'' \<notin> set (''wrld_'' @ X @ '':'' @ Y)" using assms by simp
  have Q: "CHR ''~'' \<notin> set (''group('' @ Z @ '')'')" using assms by simp
  have "sublist (CHR ''~'' # k) ((''wrld_'' @ X @ '':'' @ Y) @ (CHR ''~'' # (''group('' @ Z @ '')'')))
        = sublist (CHR ''~'' # k) (CHR ''~'' # (''group('' @ Z @ '')''))"
    by (rule tilde_free_prefix [OF P])
  moreover have "sublist (CHR ''~'' # k) ((''group('' @ Z @ '')'') @ []) = sublist (CHR ''~'' # k) []"
    by (rule tilde_free_prefix [OF Q])
  ultimately show ?thesis
    by (simp add: sublist_Cons_right)
qed

lemma group_form_facts:
  "sublist ''~group'' (''wrld_'' @ X @ '':'' @ Y @ ''~group('' @ R)"
  "sublist ''~'' (''wrld_'' @ X @ '':'' @ Y @ ''~group('' @ R)"
proof -
  have e: "''wrld_'' @ X @ '':'' @ Y @ ''~group('' @ R = (''wrld_'' @ X @ '':'' @ Y) @ ''~group'' @ (''('' @ R)"
    by simp
  show "sublist ''~group'' (''wrld_'' @ X @ '':'' @ Y @ ''~group('' @ R)"
    unfolding e sublist_def by blast
  have f: "''wrld_'' @ X @ '':'' @ Y @ ''~group('' @ R = (''wrld_'' @ X @ '':'' @ Y) @ ''~'' @ (''group('' @ R)"
    by simp
  show "sublist ''~'' (''wrld_'' @ X @ '':'' @ Y @ ''~group('' @ R)"
    unfolding f sublist_def by blast
qed

lemma sub_ev:
  "sublist (a # k) (b # s) \<longleftrightarrow> prefix (a # k) (b # s) \<or> sublist (a # k) s"
  "sublist (a # k) [] \<longleftrightarrow> False"
  by (auto simp: sublist_Cons_right)

text \<open>
  Claim C4, as amended. On the sentinels \<open>private\<close>, \<open>offline\<close>, \<open>traveling\<close> the
  instance-type parser returns the sentinel, on the empty string it returns \<open>unknown\<close>,
  and in both cases no world id is extracted (neither pass of the online-friends
  collector takes anything from such a location).  On every location
  \<open>wrld_X:Y~group(...)\<close>, whatever follows the opening of the group modifier, it
  returns \<open>group\<close> exactly when none of the markers \<open>~public\<close>, \<open>~hidden\<close>,
  \<open>~friends\<close>, \<open>~private\<close> occurs anywhere in the location: the table is scanned in
  insertion order and these four keys come before \<open>group\<close>.  In particular it returns
  \<open>group\<close> when the world id, the instance id and the modifier's value are free of
  \<open>~\<close>.  On a non-sentinel, non-empty location without \<open>~\<close> it returns \<open>public\<close>.
\<close>

theorem parse_instance_type_cases:
  "(loc \<in> set [''private'', ''offline'', ''traveling'']
      \<longrightarrow> parse_instance_type loc = loc
          \<and> scan_worlds wcache [JObj [(''location'', JStr loc)]] acc = Ret acc
          \<and> scan_instances icache [JObj [(''location'', JStr loc)]] iacc = Ret iacc)
   \<and> parse_instance_type [] = ''unknown''
   \<and> scan_worlds wcache [JObj [(''location'', JStr [])]] acc = Ret acc
   \<and> scan_instances icache [JObj [(''location'', JStr [])]] iacc = Ret iacc
   \<and> (parse_instance_type (''wrld_'' @ X @ '':'' @ Y @ ''~group('' @ R) = ''group''
        \<longleftrightarrow> \<not> sublist ''~public'' (''wrld_'' @ X @ '':'' @ Y @ ''~group('' @ R)
          \<and> \<not> sublist ''~hidden'' (''wrld_'' @ X @ '':'' @ Y @ ''~group('' @ R)
          \<and> \<not> sublist ''~friends'' (''wrld_'' @ X @ '':'' @ Y @ ''~group('' @ R)
          \<and> \<not> sublist ''~private'' (''wrld_'' @ X @ '':'' @ Y @ ''~group('' @ R))
   \<and> (CHR ''~'' \<notin> set X \<and> CHR ''~'' \<notin> set Y \<and> CHR ''~'' \<notin> set Z
      \<longrightarrow> parse_instance_type (''wrld_'' @ X @ '':'' @ Y @ ''~group('' @ Z @ '')'') = ''group'')
   \<and> (loc \<noteq> [] \<and> loc \<notin> set [''private'', ''offline'', ''traveling''] \<and> CHR ''~'' \<notin> set loc
      \<longrightarrow> parse_instance_type loc = ''public'')"
proof (intro conjI impI)
  assume "loc \<in> set [''private'', ''offline'', ''traveling'']"
  then have l: "loc = ''private'' \<or> loc = ''offline'' \<or> loc = ''traveling''" by simp
  from l show "parse_instance_type loc = loc"
    by (auto simp: parse_instance_type_def)
  from l show "scan_worlds wcache [JObj [(''location'', JStr loc)]] acc = Ret acc"
    by auto
  from l show "scan_instances icache [JObj [(''location'', JStr loc)]] iacc = Ret iacc"
    by (auto simp: sublist_Cons_right)
next
  show "parse_instance_type [] = ''unknown''"
    by (simp add: parse_instance_type_def)
  show "scan_worlds wcache [JObj [(''location'', JStr [])]] acc = Ret acc" by simp
  show "scan_instances icache [JObj [(''location'', JStr [])]] iacc = Ret iacc" by simp
next
  let ?l = "''wrld_'' @ X @ '':'' @ Y @ ''~group('' @ R"
  have g: "sublist ''~group'' ?l" and t: "sublist ''~'' ?l"
    by (rule group_form_facts)+
  have n: "?l \<noteq> [] \<and> ?l \<notin> set [''private'', ''offline'', ''traveling'']" by simp
  have p: "parse_instance_type ?l = first_label INSTANCE_TYPE_MAP ?l"
    using n t unfolding parse_instance_type_def by (simp only: if_False if_True not_True_eq_False simp_thms)
  show "parse_instance_type ?l = ''group''
        \<longleftrightarrow> \<not> sublist ''~public'' ?l \<and> \<not> sublist ''~hidden'' ?l
          \<and> \<not> sublist ''~friends'' ?l \<and> \<not> sublist ''~private'' ?l"
    unfolding p using g by (simp add: INSTANCE_TYPE_MAP_def)
next
  assume a: "CHR ''~'' \<notin> set X \<and> CHR ''~'' \<notin> set Y \<and> CHR ''~'' \<notin> set Z"
  let ?l = "''wrld_'' @ X @ '':'' @ Y @ ''~group('' @ Z @ '')''"
  have m: "\<And>k. sublist (CHR ''~'' # k) ?l \<longleftrightarrow> prefix k (''group('' @ Z @ '')'')"
    using a marker_in_group_form by blast
  have t: "sublist ''~'' ?l" using m [of "[]"] by simp
  have f: "first_label INSTANCE_TYPE_MAP ?l = ''group''"
    using m by (simp add: INSTANCE_TYPE_MAP_def)
  show "parse_instance_type ?l = ''group''"
    using t f by (simp add: parse_instance_type_def)
next
  assume "loc \<noteq> [] \<and> loc \<notin> set [''private'', ''offline'', ''traveling''] \<and> CHR ''~'' \<notin> set loc"
  then show "parse_instance_type loc = ''public''"
    by (simp add: parse_instance_type_def sublist_tilde_iff)
qed

theorem parse_instance_type_cases_witness:
  "parse_instance_type ''offline'' = ''offline''
   \<and> scan_worlds [] [JObj [(''location'', JStr ''offline'')]] [] = Ret []
   \<and> parse_instance_type ''wrld_a:1~group(grp_1)~groupAccessType(members)~region(us)'' = ''group''
   \<and> parse_instance_type ''wrld_ab:12~group(grp_7)'' = ''group''
   \<and> parse_instance_type ''wrld_ab:12'' = ''public''"
proof -
  have n: "\<not> sublist ''~public'' (''wrld_'' @ ''a'' @ '':'' @ ''1'' @ ''~group('' @ ''grp_1)~groupAccessType(members)~region(us)'')
     \<and> \<not> sublist ''~hidden'' (''wrld_'' @ ''a'' @ '':'' @ ''1'' @ ''~group('' @ ''grp_1)~groupAccessType(members)~region(us)'')
     \<and> \<not> sublist ''~friends'' (''wrld_'' @ ''a'' @ '':'' @ ''1'' @ ''~group('' @ ''grp_1)~groupAccessType(members)~region(us)'')
     \<and> \<not> sublist ''~private'' (''wrld_'' @ ''a'' @ '':'' @ ''1'' @ ''~group('' @ ''grp_1)~groupAccessType(members)~region(us)'')"
    by (simp add: sub_ev)
  have a: "parse_instance_type (''wrld_'' @ ''a'' @ '':'' @ ''1'' @ ''~group('' @ ''grp_1)~groupAccessType(members)~region(us)'') = ''group''"
    using parse_instance_type_cases [of "''offline''" "[]" "[]" "[]" "[]" "''a''" "''1''" "''grp_1)~groupAccessType(members)~region(us)''" "''grp_7''"] n
    by blast
  have b: "parse_instance_type ''offline'' = ''offline''
   \<and> scan_worlds [] [JObj [(''location'', JStr ''offline'')]] [] = Ret []
   \<and> parse_instance_type ''wrld_ab:12~group(grp_7)'' = ''group''
   \<and> parse_instance_type ''wrld_ab:12'' = ''public''"
    using parse_instance_type_cases [of "''offline''" "[]" "[]" "[]" "[]" "''ab''" "''12''" "''x''" "''grp_7''"]
      parse_instance_type_cases [of "''wrld_ab:12''" "[]" "[]" "[]" "[]" "''ab''" "''12''" "''x''" "''grp_7''"]
    by simp
  show ?thesis using a b by simp
qed

text \<open>
  The claim as first worded gives \<open>group\<close> for every location of the form
  \<open>wrld_X:Y~group(...)\<close>.  A location whose group modifier is followed by a
  \<open>~private\<close> modifier is of that form, and the parser answers \<open>private\<close>.
\<close>

theorem group_marker_not_first_counterexample:
  "parse_instance_type ''wrld_a:1~group(grp_1)~private(usr_1)'' = ''private''"
  by (simp add: parse_instance_type_def INSTANCE_TYPE_MAP_def sub_ev)

subsection \<open>Request throttling\<close>

lemma throttle_clock:"clock (throttle e s) = max (clock s) (last_request_time s + REQUEST_DELAY e)"
  "last_request_time (throttle e s) = clock (throttle e s)"
  "requests (throttle e s) = requests s"
  by (auto simp: throttle_def Let_def)

lemma client_get_requests:
  "client_get e ep ps s = (r, s') \<Longrightarrow>
     requests s' = requests s @ [(clock (throttle e s), ep, ps)]
     \<and> last_request_time s' = clock (throttle e s)"
  by (auto simp: client_get_def Let_def throttle_clock split: http.splits if_splits)

text \<open>
  Claim C5, as the code has it. The throttle measures the time elapsed since the previous
  request was issued (\<open>_last_request_time\<close> is set when the throttle returns, before
  the HTTP exchange), not since it completed. For two consecutive requests, with any
  time \<open>d\<close> spent by the caller in between: the later request is issued at the later of
  the moment it is asked for and the previous issue time plus \<open>REQUEST_DELAY\<close>; the
  suspension is exactly the remainder of the interval (nothing when the interval has
  passed); so two consecutive requests are issued at least \<open>REQUEST_DELAY\<close> apart,
  issue to issue.
\<close>

theorem throttle_spacing:
  assumes "client_get e ep1 ps1 s = (r1, s1)"
      and "client_get e ep2 ps2 (s1\<lparr>clock := clock s1 + d\<rparr>) = (r2, s2)"
  shows "\<exists>t1 t2. requests s2 = requests s @ [(t1, ep1, ps1), (t2, ep2, ps2)]
           \<and> t2 = max (clock s1 + d) (t1 + REQUEST_DELAY e)
           \<and> t2 - (clock s1 + d) = max 0 (REQUEST_DELAY e - ((clock s1 + d) - t1))
           \<and> REQUEST_DELAY e \<le> t2 - t1"
proof -
  let ?t1 = "clock (throttle e s)"
  let ?s1' = "s1\<lparr>clock := clock s1 + d\<rparr>"
  let ?t2 = "clock (throttle e ?s1')"
  from client_get_requests [OF assms(1)]
  have r1: "requests s1 = requests s @ [(?t1, ep1, ps1)]" and l1: "last_request_time s1 = ?t1"
    by simp_all
  from client_get_requests [OF assms(2)]
  have r2: "requests s2 = requests ?s1' @ [(?t2, ep2, ps2)]" by simp
  have t2: "?t2 = max (clock s1 + d) (?t1 + REQUEST_DELAY e)"
    using l1 by (simp add: throttle_clock)
  have "requests s2 = requests s @ [(?t1, ep1, ps1), (?t2, ep2, ps2)]"
    using r1 r2 by simp
  moreover have "?t2 - (clock s1 + d) = max 0 (REQUEST_DELAY e - ((clock s1 + d) - ?t1))"
    using t2 by (simp add: max_def)
  moreover have "REQUEST_DELAY e \<le> ?t2 - ?t1" using t2 by (simp add: max_def)
  ultimately show ?thesis using t2 by blast
qed

theorem throttle_spacing_witness:
  "\<exists>r1 s1 r2 s2. client_get demo_env ''/visits'' [] (init_state 1000) = (r1, s1)
     \<and> client_get demo_env ''/auth/user'' [] (s1\<lparr>clock := clock s1 + 0\<rparr>) = (r2, s2)
     \<and> (\<exists>t1 t2. requests s2 = requests (init_state 1000) @ [(t1, ''/visits'', []), (t2, ''/auth/user'', [])]
           \<and> REQUEST_DELAY demo_env \<le> t2 - t1)"
proof -
  obtain r1 s1 where a: "client_get demo_env ''/visits'' [] (init_state 1000) = (r1, s1)"
    by (cases "client_get demo_env ''/visits'' [] (init_state 1000)")
  obtain r2 s2 where b: "client_get demo_env ''/auth/user'' [] (s1\<lparr>clock := clock s1 + 0\<rparr>) = (r2, s2)"
    by (cases "client_get demo_env ''/auth/user'' [] (s1\<lparr>clock := clock s1 + 0\<rparr>)")
  from throttle_spacing [OF a b] a b show ?thesis by blast
qed

text \<open>
  Claim C5 as stated fails: with \<open>REQUEST_DELAY = 1.5\<close> and requests that take one second,
  the first request is issued at 1000 and completes at 1001 (\<open>_last_request_time\<close> is
  1000), and the second is issued at 1001.5, half a second after the first completed.
\<close>

theorem throttle_from_completion_counterexample:
  "clock (snd (client_get demo_env ''/visits'' [] (init_state 1000))) = 1001
   \<and> last_request_time (snd (client_get demo_env ''/visits'' [] (init_state 1000))) = 1000
   \<and> map fst (requests (snd (client_get demo_env ''/auth/user'' []
                 (snd (client_get demo_env ''/visits'' [] (init_state 1000)))))) = [1000, 2003 / 2]
   \<and> 2003 / 2 - 1001 < REQUEST_DELAY demo_env"
  by (simp add: client_get_def throttle_def demo_env_def init_state_def Let_def)

subsection \<open>Frames and world refresh\<close>

lemma client_get_result:
  "fst (client_get e ep ps s) = get_result e (length (requests s)) ep ps"
  by (simp add: client_get_def get_result_def Let_def throttle_clock split: http.splits)

lemma client_get_caches:
  "world_cache (snd (client_get e ep ps s)) = world_cache s"
  "instance_cache (snd (client_get e ep ps s)) = instance_cache s"
  "next_oid (snd (client_get e ep ps s)) = next_oid s"
  "metrics (snd (client_get e ep ps s)) = metrics s"
  by (simp_all add: client_get_def Let_def throttle_def split: http.splits)

lemma stable_result:
  "world_data_stable e \<Longrightarrow>
     get_result e n (''/worlds/'' @ wid) [] = get_result e 0 (''/worlds/'' @ wid) []"
  unfolding world_data_stable_def get_result_def by metis

lemma world_update_idem:
  "world_update k w a = Ret b \<Longrightarrow> world_update k w b = Ret b"
  by (auto simp: world_update_def split: json.splits)

lemma refresh_worlds_keeps_fixed:
  assumes st: "world_data_stable e"
  shows "refresh_worlds e ks n s = (r, s1) \<Longrightarrow>
         map_of (world_cache s) k = Some a \<Longrightarrow>
         world_update k (get_result e 0 (''/worlds/'' @ k) []) a = Ret a \<Longrightarrow>
         \<exists>b. map_of (world_cache s1) k = Some b
            \<and> world_update k (get_result e 0 (''/worlds/'' @ k) []) b = Ret b"
proof (induction ks arbitrary: n s a)
  case Nil
  then show ?case by simp
next
  case (Cons k' rest)
  show ?case
  proof (cases "n \<ge> MAX_WORLD_LOOKUPS e")
    case True
    with Cons.prems show ?thesis by simp
  next
    case False
    obtain w s' where g: "client_get e (''/worlds/'' @ k') [] s = (w, s')"
      by (cases "client_get e (''/worlds/'' @ k') [] s")
    have w: "w = get_result e 0 (''/worlds/'' @ k') []"
      using client_get_result [of e "''/worlds/'' @ k'" "[]" s] g stable_result [OF st] by simp
    have c': "world_cache s' = world_cache s"
      using client_get_caches(1) [of e "''/worlds/'' @ k'" "[]" s] g by simp
    show ?thesis
    proof (cases "if truthy w then py_in ''name'' w else Ret False")
      case (Raise x)
      with Cons.prems False g c' show ?thesis by auto
    next
      case (Ret ok)
      show ?thesis
      proof (cases ok)
        case False
        with Ret \<open>\<not> n \<ge> MAX_WORLD_LOOKUPS e\<close> g Cons.prems(1)
        have "refresh_worlds e rest (n + 1) s' = (r, s1)" by simp
        from Cons.IH [OF this] c' Cons.prems(2,3) show ?thesis by simp
      next
        case True
        show ?thesis
        proof (cases "map_of (world_cache s') k'")
          case None
          with True Ret \<open>\<not> n \<ge> MAX_WORLD_LOOKUPS e\<close> g Cons.prems c' show ?thesis by auto
        next
          case (Some old)
          show ?thesis
          proof (cases "world_update k' w old")
            case (Raise x)
            with Some True Ret \<open>\<not> n \<ge> MAX_WORLD_LOOKUPS e\<close> g Cons.prems c' show ?thesis by auto
          next
            case (Ret new)
            let ?s2 = "s'\<lparr>world_cache := AList.update k' new (world_cache s')\<rparr>"
            from Ret Some True \<open>(if truthy w then py_in ''name'' w else Ret False) = Ret ok\<close>
              \<open>\<not> n \<ge> MAX_WORLD_LOOKUPS e\<close> g Cons.prems(1)
            have run: "refresh_worlds e rest (n + 1) ?s2 = (r, s1)" by simp
            have "\<exists>a'. map_of (world_cache ?s2) k = Some a'
                    \<and> world_update k (get_result e 0 (''/worlds/'' @ k) []) a' = Ret a'"
            proof (cases "k = k'")
              case True
              then show ?thesis using Ret w world_update_idem by (auto simp: update_conv')
            next
              case False
              then show ?thesis using Cons.prems(2,3) c' by (auto simp: update_conv')
            qed
            then obtain a' where "map_of (world_cache ?s2) k = Some a'"
              "world_update k (get_result e 0 (''/worlds/'' @ k) []) a' = Ret a'" by blast
            from Cons.IH [OF run this] show ?thesis .
          qed
        qed
      qed
    qed
  qed
qed

lemma refresh_worlds_keys:
  "refresh_worlds e ks n s = (r, s1) \<Longrightarrow> map fst (world_cache s1) = map fst (world_cache s)"
proof (induction ks arbitrary: n s)
  case Nil
  then show ?case by simp
next
  case (Cons k rest)
  obtain w s' where g: "client_get e (''/worlds/'' @ k) [] s = (w, s')"
    by (cases "client_get e (''/worlds/'' @ k) [] s")
  have c': "world_cache s' = world_cache s"
    using client_get_caches(1) [of e "''/worlds/'' @ k" "[]" s] g by simp
  have upd: "\<And>old new. map_of (world_cache s) k = Some old \<Longrightarrow>
      map fst (AList.update k new (world_cache s)) = map fst (world_cache s)"
    by (auto simp: update_keys dest: map_of_SomeD intro: rev_image_eqI)
  from Cons.prems g c' show ?case
    by (auto simp: upd split: if_splits res.splits bool.splits option.splits
             dest!: Cons.IH)
qed

lemma refresh_worlds_again:
  assumes st: "world_data_stable e"
  shows "refresh_worlds e ks n s = (r1, s1) \<Longrightarrow> world_cache t = world_cache s1 \<Longrightarrow>
         world_cache (snd (refresh_worlds e ks n t)) = world_cache s1"
proof (induction ks arbitrary: n s t)
  case Nil
  then show ?case by simp
next
  case (Cons k rest)
  show ?case
  proof (cases "n \<ge> MAX_WORLD_LOOKUPS e")
    case True
    with Cons.prems show ?thesis by simp
  next
    case False
    obtain w s' where g: "client_get e (''/worlds/'' @ k) [] s = (w, s')"
      by (cases "client_get e (''/worlds/'' @ k) [] s")
    obtain w2 t' where g2: "client_get e (''/worlds/'' @ k) [] t = (w2, t')"
      by (cases "client_get e (''/worlds/'' @ k) [] t")
    have w: "w = get_result e 0 (''/worlds/'' @ k) []"
      using client_get_result [of e "''/worlds/'' @ k" "[]" s] g stable_result [OF st] by simp
    have w2: "w2 = w"
      using client_get_result [of e "''/worlds/'' @ k" "[]" t] g2 stable_result [OF st] w by simp
    have c': "world_cache s' = world_cache s"
      using client_get_caches(1) [of e "''/worlds/'' @ k" "[]" s] g by simp
    have ct': "world_cache t' = world_cache s1"
      using client_get_caches(1) [of e "''/worlds/'' @ k" "[]" t] g2 Cons.prems(2) by simp
    show ?thesis
    proof (cases "if truthy w then py_in ''name'' w else Ret False")
      case (Raise x)
      with Cons.prems False g g2 w2 ct' show ?thesis by auto
    next
      case (Ret ok)
      show ?thesis
      proof (cases ok)
        case False
        with Ret \<open>\<not> n \<ge> MAX_WORLD_LOOKUPS e\<close> g Cons.prems(1)
        have run: "refresh_worlds e rest (n + 1) s' = (r1, s1)" by simp
        from False Ret \<open>\<not> n \<ge> MAX_WORLD_LOOKUPS e\<close> g2 w2
        have "refresh_worlds e (k # rest) n t = refresh_worlds e rest (n + 1) t'" by simp
        with Cons.IH [OF run ct'] show ?thesis by simp
      next
        case True
        show ?thesis
        proof (cases "map_of (world_cache s') k")
          case None
          with True Ret \<open>\<not> n \<ge> MAX_WORLD_LOOKUPS e\<close> g Cons.prems(1)
          have "s1 = s'" by simp
          with None True Ret \<open>\<not> n \<ge> MAX_WORLD_LOOKUPS e\<close> g2 w2 ct' show ?thesis by simp
        next
          case (Some old)
          show ?thesis
          proof (cases "world_update k w old")
            case (Raise x)
            with Some True Ret \<open>\<not> n \<ge> MAX_WORLD_LOOKUPS e\<close> g Cons.prems(1)
            have s1: "s1 = s'" by simp
            have "world_update k w old = Raise x \<Longrightarrow> world_update k w old' = Raise x" for old'
              by (auto simp: world_update_def split: json.splits)
            with Raise have "world_update k w old' = Raise x" for old' by blast
            with Some s1 True Ret \<open>\<not> n \<ge> MAX_WORLD_LOOKUPS e\<close> g2 w2 ct' show ?thesis by simp
          next
            case (Ret new)
            let ?s2 = "s'\<lparr>world_cache := AList.update k new (world_cache s')\<rparr>"
            from Ret Some True \<open>(if truthy w then py_in ''name'' w else Ret False) = Ret ok\<close>
              \<open>\<not> n \<ge> MAX_WORLD_LOOKUPS e\<close> g Cons.prems(1)
            have run: "refresh_worlds e rest (n + 1) ?s2 = (r1, s1)" by simp
            have "map_of (world_cache ?s2) k = Some new" by (simp add: update_conv')
            moreover have "world_update k (get_result e 0 (''/worlds/'' @ k) []) new = Ret new"
              using Ret w world_update_idem by blast
            ultimately obtain b where b: "map_of (world_cache s1) k = Some b"
              "world_update k w b = Ret b"
              using refresh_worlds_keeps_fixed [OF st run] w by blast
            have same: "AList.update k b (world_cache t') = world_cache t'"
              using b(1) ct' by (simp add: update_triv)
            from b ct' True \<open>(if truthy w then py_in ''name'' w else Ret False) = Ret ok\<close>
              \<open>\<not> n \<ge> MAX_WORLD_LOOKUPS e\<close> g2 w2 same
            have "refresh_worlds e (k # rest) n t
                  = refresh_worlds e rest (n + 1) (t'\<lparr>world_cache := world_cache t'\<rparr>)" by simp
            moreover have "world_cache (t'\<lparr>world_cache := world_cache t'\<rparr>) = world_cache s1"
              using ct' by simp
            ultimately show ?thesis using Cons.IH [OF run] by simp
          qed
        qed
      qed
    qed
  qed
qed

lemma gauge_put_frame [simp]:
  "world_cache (gauge_put m ls v s) = world_cache s"
  "instance_cache (gauge_put m ls v s) = instance_cache s"
  "next_oid (gauge_put m ls v s) = next_oid s"
  "requests (gauge_put m ls v s) = requests s"
  "clock (gauge_put m ls v s) = clock s"
  "authenticated (gauge_put m ls v s) = authenticated s"
  by (simp_all add: gauge_put_def)

lemma metrics_clear_frame [simp]:
  "world_cache (metrics_clear m s) = world_cache s"
  "instance_cache (metrics_clear m s) = instance_cache s"
  "next_oid (metrics_clear m s) = next_oid s"
  "requests (metrics_clear m s) = requests s"
  "clock (metrics_clear m s) = clock s"
  "authenticated (metrics_clear m s) = authenticated s"
  by (simp_all add: metrics_clear_def)

lemma counter_inc_frame [simp]:
  "world_cache (counter_inc m ls s) = world_cache s"
  "instance_cache (counter_inc m ls s) = instance_cache s"
  "next_oid (counter_inc m ls s) = next_oid s"
  "requests (counter_inc m ls s) = requests s"
  "clock (counter_inc m ls s) = clock s"
  "authenticated (counter_inc m ls s) = authenticated s"
  by (simp_all add: counter_inc_def)

lemma metrics_only_refl [simp]: "metrics_only s s"
  by (simp add: metrics_only_def)

lemma metrics_only_trans: "metrics_only s s1 \<Longrightarrow> metrics_only s1 s2 \<Longrightarrow> metrics_only s s2"
  by (simp add: metrics_only_def)

lemma metrics_only_ops [simp]:
  "metrics_only s (gauge_put m ls v s)"
  "metrics_only s (metrics_clear m s)"
  "metrics_only s (counter_inc m ls s)"
  "metrics_only s (child m ls s)"
  "metrics_only s (snd (gauge_set e m ls j s))"
  "metrics_only s (snd (set_len m j s))"
  by (simp_all add: metrics_only_def gauge_put_def metrics_clear_def counter_inc_def child_def
        gauge_set_def set_len_def Let_def split: res.splits)

lemma metrics_only_step [simp]:
  "metrics_only s1 s2 \<Longrightarrow> metrics_only s (gauge_put m ls v s1) = metrics_only s s1"
  "metrics_only s (gauge_put m ls v s1) = metrics_only s s1"
  "metrics_only s (metrics_clear m s1) = metrics_only s s1"
  "metrics_only s (counter_inc m ls s1) = metrics_only s s1"
  by (simp_all add: metrics_only_def gauge_put_def metrics_clear_def counter_inc_def)

lemma seq_cases:
  "seq m f = (case fst m of Ret a \<Rightarrow> f a (snd m) | Raise x \<Rightarrow> (Raise x, snd m))"
  by (cases m) (simp add: seq_def split: res.splits)

lemma metrics_only_seq:
  "metrics_only s (snd m) \<Longrightarrow> (\<And>a. metrics_only (snd m) (snd (f a (snd m))))
     \<Longrightarrow> metrics_only s (snd (seq m f))"
  by (auto simp: seq_cases split: res.splits intro: metrics_only_trans)

lemma push_worlds_metrics_only [simp]: "metrics_only s (snd (push_worlds e items s))"
proof (induction items arbitrary: s)
  case Nil
  show ?case by simp
next
  case (Cons it items)
  obtain wid info where it: "it = (wid, info)" by (cases it)
  show ?case
    unfolding it push_worlds.simps Let_def
    by (intro metrics_only_seq metrics_only_ops Cons.IH)
qed

lemma push_worlds_frame [simp]:
  "world_cache (snd (push_worlds e items s)) = world_cache s"
  using push_worlds_metrics_only [of s e items] by (simp add: metrics_only_def)

lemma collect_world_metrics_cache:
  "world_cache (snd (collect_world_metrics e s))
   = world_cache (snd (refresh_worlds e (map fst (world_cache s)) 0 s))"
proof (cases "world_cache s = []")
  case True
  then show ?thesis by (simp add: collect_world_metrics_def)
next
  case False
  obtain ra sa where run: "refresh_worlds e (map fst (world_cache s)) 0 s = (ra, sa)"
    by (cases "refresh_worlds e (map fst (world_cache s)) 0 s")
  show ?thesis
    using False run by (simp add: collect_world_metrics_def seq_cases split: res.splits)
qed

text \<open>
  Claim C7. Running the world-refresh collector twice in succession while the upstream
  world data is unchanged leaves every cached world record as it was after the first run,
  and the collector never adds or removes a key of the world cache (so the size of the
  cache does not change). This holds whether or not a run raises.
\<close>

theorem world_refresh_idempotent:
  assumes "world_data_stable e"
      and "collect_world_metrics e s = (r1, s1)"
      and "collect_world_metrics e s1 = (r2, s2)"
  shows "world_cache s2 = world_cache s1
         \<and> map fst (world_cache s1) = map fst (world_cache s)
         \<and> length (world_cache s2) = length (world_cache s)"
proof -
  obtain ra sa where run: "refresh_worlds e (map fst (world_cache s)) 0 s = (ra, sa)"
    by (cases "refresh_worlds e (map fst (world_cache s)) 0 s")
  have c1: "world_cache s1 = world_cache sa"
    using collect_world_metrics_cache [of e s] assms(2) run by simp
  have keys: "map fst (world_cache s1) = map fst (world_cache s)"
    using refresh_worlds_keys [OF run] c1 by simp
  have "world_cache s2 = world_cache (snd (refresh_worlds e (map fst (world_cache s1)) 0 s1))"
    using collect_world_metrics_cache [of e s1] assms(3) by simp
  also have "\<dots> = world_cache sa"
    using refresh_worlds_again [OF assms(1) run, of s1] c1 keys by simp
  finally have c2: "world_cache s2 = world_cache s1" using c1 by simp
  have "length (world_cache s2) = length (map fst (world_cache s1))" using c2 by simp
  then show ?thesis using c2 keys by simp
qed

theorem world_refresh_idempotent_witness:
  "world_data_stable busy_env
   \<and> world_cache (snd (collect_world_metrics busy_env
        (snd (collect_world_metrics busy_env
           ((init_state 1000)\<lparr>world_cache := [(''wrld_a'', placeholder 0 ''wrld_a'')]\<rparr>)))))
     = world_cache (snd (collect_world_metrics busy_env
           ((init_state 1000)\<lparr>world_cache := [(''wrld_a'', placeholder 0 ''wrld_a'')]\<rparr>)))
   \<and> map (\<lambda>kv. (fst kv, w_name (snd kv), w_visits (snd kv)))
        (world_cache (snd (collect_world_metrics busy_env
           ((init_state 1000)\<lparr>world_cache := [(''wrld_a'', placeholder 0 ''wrld_a'')]\<rparr>))))
     = [(''wrld_a'', JStr ''Alpha'', JNum 7)]"
proof -
  let ?s = "(init_state 1000)\<lparr>world_cache := [(''wrld_a'', placeholder 0 ''wrld_a'')]\<rparr>"
  have st: "world_data_stable busy_env"
    by (simp add: world_data_stable_def busy_env_def)
  have a: "collect_world_metrics busy_env ?s
           = (fst (collect_world_metrics busy_env ?s), snd (collect_world_metrics busy_env ?s))"
    by simp
  have b: "collect_world_metrics busy_env (snd (collect_world_metrics busy_env ?s))
           = (fst (collect_world_metrics busy_env (snd (collect_world_metrics busy_env ?s))),
              snd (collect_world_metrics busy_env (snd (collect_world_metrics busy_env ?s))))"
    by simp
  have v: "map (\<lambda>kv. (fst kv, w_name (snd kv), w_visits (snd kv)))
        (world_cache (snd (collect_world_metrics busy_env ?s))) = [(''wrld_a'', JStr ''Alpha'', JNum 7)]"
    by code_simp
  from world_refresh_idempotent [OF st a b] st v show ?thesis by blast
qed


subsection \<open>The online-friends collector and the registry\<close>

lemma fetch_pages_invariant_aux:
  assumes run: "fetch_pages e ep mk off acc s = Some y"
  shows "(\<forall>off t. I t \<longrightarrow> I (snd (client_get e ep (mk off) t))) \<longrightarrow> I s \<longrightarrow> I (snd y)"
proof (rule fetch_pages.raw_induct
    [where P = "\<lambda>e ep mk off acc s y.
       (\<forall>off t. I t \<longrightarrow> I (snd (client_get e ep (mk off) t))) \<longrightarrow> I s \<longrightarrow> I (snd y)",
     OF _ run], goal_cases)
  case (1 f e ep mk off acc s y)
  show ?case
  proof (intro impI)
    assume st: "\<forall>off t. I t \<longrightarrow> I (snd (client_get e ep (mk off) t))" and i: "I s"
    obtain page s1 where g: "client_get e ep (mk off) s = (page, s1)"
      by (cases "client_get e ep (mk off) s")
    have i1: "I s1" using st i g by (metis snd_conv)
    from 1(2) g i1 st show "I (snd y)"
      by (auto split: json.splits if_splits dest!: 1(1))
  qed
qed

lemma fetch_pages_invariant:
  assumes "fetch_pages e ep mk off acc s = Some (res, s')"
      and "\<And>off t. I t \<Longrightarrow> I (snd (client_get e ep (mk off) t))"
      and "I s"
  shows "I s'"
  using fetch_pages_invariant_aux [OF assms(1), of I] assms(2,3) by simp

lemma fetch_pages_frame:
  assumes "fetch_pages e ep mk off acc s = Some (res, s')"
  shows "metrics s' = metrics s" "world_cache s' = world_cache s"
    "instance_cache s' = instance_cache s" "next_oid s' = next_oid s"
proof -
  have "metrics s' = metrics s \<and> world_cache s' = world_cache s
        \<and> instance_cache s' = instance_cache s \<and> next_oid s' = next_oid s"
    by (rule fetch_pages_invariant [OF assms,
          where I = "\<lambda>t. metrics t = metrics s \<and> world_cache t = world_cache s
                        \<and> instance_cache t = instance_cache s \<and> next_oid t = next_oid s"])
       (simp_all add: client_get_caches)
  then show "metrics s' = metrics s" "world_cache s' = world_cache s"
    "instance_cache s' = instance_cache s" "next_oid s' = next_oid s" by simp_all
qed

lemma world_insert_frame [simp]:
  "metrics (world_insert k r s) = metrics s"
  "instance_cache (world_insert k r s) = instance_cache s"
  "requests (world_insert k r s) = requests s"
  by (simp_all add: world_insert_def)

lemma inst_insert_frame [simp]:
  "metrics (inst_insert k r s) = metrics s"
  "world_cache (inst_insert k r s) = world_cache s"
  "requests (inst_insert k r s) = requests s"
  by (simp_all add: inst_insert_def)

lemma resolve_worlds_metrics [simp]:
  "metrics (snd (resolve_worlds e ids n s)) = metrics s"
proof (induction ids arbitrary: n s)
  case Nil
  show ?case by simp
next
  case (Cons wid rest)
  obtain w s1 where g: "client_get e (''/worlds/'' @ wid) [] s = (w, s1)"
    by (cases "client_get e (''/worlds/'' @ wid) [] s")
  have "metrics s1 = metrics s"
    using client_get_caches(4) [of e "''/worlds/'' @ wid" "[]" s] g by simp
  with g show ?case
    by (auto simp: Cons.IH split: res.splits bool.splits)
qed

lemma resolve_instances_metrics [simp]:
  "metrics (snd (resolve_instances e us s)) = metrics s"
proof (induction us arbitrary: s)
  case Nil
  show ?case by simp
next
  case (Cons u rest)
  obtain key wid iid where u: "u = (key, wid, iid)" by (cases u)
  obtain w s1 where g: "client_get e (''/instances/'' @ wid @ '':'' @ iid) [] s = (w, s1)"
    by (cases "client_get e (''/instances/'' @ wid @ '':'' @ iid) [] s")
  have "metrics s1 = metrics s"
    using client_get_caches(4) [of e "''/instances/'' @ wid @ '':'' @ iid" "[]" s] g by simp
  with g u show ?case
    by (auto simp: Cons.IH split: res.splits)
qed

lemma bump_at_keys: "(a, b) \<in> set (bump_at k d) \<Longrightarrow> a = k \<or> a \<in> fst ` set d"
  by (induction d) (force split: if_splits)+

lemma count_bump_keys:
  "count_bump k d = Ret d' \<Longrightarrow> (a, b) \<in> set d' \<Longrightarrow> a = k \<or> a \<in> fst ` set d"
  using bump_at_keys by (auto simp: count_bump_def split: if_splits)

lemma push_counts_other:
  "m' \<noteq> m \<or> (\<forall>k \<in> fst ` set d. [py_str e k] \<noteq> ls) \<Longrightarrow>
     metrics (push_counts e m d s) (m', ls) = metrics s (m', ls)"
  by (induction d arbitrary: s) (auto simp: gauge_put_def)

lemma push_world_counts_other:
  "m' \<noteq> FRIEND_WORLD_GAUGE \<or> (\<forall>k \<in> fst ` set d. \<forall>n. [n, k] \<noteq> ls) \<Longrightarrow>
     metrics (push_world_counts e d s) (m', ls) = metrics s (m', ls)"
  by (induction d arbitrary: s) (auto simp: gauge_put_def)

lemma update_mem_keys:
  "(a, b) \<in> set (AList.update k v al) \<Longrightarrow> a = k \<or> a \<in> fst ` set al"
  by (induction al) (force split: if_splits)+

lemma friend_detail_metrics:
  assumes "friend_detail e f c s = (r, s')"
  shows "m \<noteq> FRIEND_DETAIL \<Longrightarrow> metrics s' (m, ls) = metrics s (m, ls)"
    and "(\<And>kvs. f = JObj kvs \<Longrightarrow> py_str e (dget kvs ''displayName'' (JStr ''unknown'')) \<noteq> d)
          \<Longrightarrow> metrics s' (FRIEND_DETAIL, d # ls) = metrics s (FRIEND_DETAIL, d # ls)"
  using assms
  by (auto simp: friend_detail_def Let_def gauge_put_def
           split: json.splits res.splits bool.splits)

lemma friend_detail_counts:
  assumes "friend_detail e f c s = (Ret c', s')"
  shows "\<exists>kvs. f = JObj kvs
      \<and> (\<forall>a \<in> fst ` set (status_counts c').
            a = dget kvs ''status'' (JStr ''offline'') \<or> a \<in> fst ` set (status_counts c))
      \<and> (\<forall>a \<in> fst ` set (platform_counts c').
            a = dget kvs ''last_platform'' (JStr ''unknown'') \<or> a \<in> fst ` set (platform_counts c))
      \<and> (\<forall>w \<in> fst ` set (world_counts c'). w \<in> fst ` set (world_counts c)
            \<or> (\<exists>l. dget kvs ''location'' (JStr []) = JStr l \<and> w = hd (split_on CHR '':'' l)))"
proof -
  from assms obtain kvs where f: "f = JObj kvs"
    by (auto simp: friend_detail_def split: json.splits)
  let ?st = "dget kvs ''status'' (JStr ''offline'')"
  let ?pl = "dget kvs ''last_platform'' (JStr ''unknown'')"
  from assms f obtain sc where sc: "count_bump ?st (status_counts c) = Ret sc"
    by (auto simp: friend_detail_def Let_def split: res.splits)
  from assms f sc obtain pc where pc: "count_bump ?pl (platform_counts c) = Ret pc"
    by (auto simp: friend_detail_def Let_def split: res.splits)
  from assms f sc pc have c1: "status_counts c' = sc" and c2: "platform_counts c' = pc"
    by (auto simp: friend_detail_def Let_def split: res.splits bool.splits json.splits)
  from assms f sc pc have c3: "\<forall>w \<in> fst ` set (world_counts c'). w \<in> fst ` set (world_counts c)
            \<or> (\<exists>l. dget kvs ''location'' (JStr []) = JStr l \<and> w = hd (split_on CHR '':'' l))"
    by (auto simp: friend_detail_def Let_def split: res.splits bool.splits json.splits
             dest: update_mem_keys)
  show ?thesis
    using f c1 c2 c3 count_bump_keys [OF sc] count_bump_keys [OF pc] by auto blast+
qed

lemma friend_details_step:
  "friend_details e (f # fs) c s =
     (case fst (friend_detail e f c s) of
        Raise x \<Rightarrow> (Raise x, snd (friend_detail e f c s))
      | Ret c1 \<Rightarrow> friend_details e fs c1 (snd (friend_detail e f c s)))"
  by (cases "friend_detail e f c s") (simp split: res.splits)

lemma friend_details_other:
  "friend_details e fs c s = (r, s') \<Longrightarrow> m \<noteq> FRIEND_DETAIL \<Longrightarrow>
     metrics s' (m, ls) = metrics s (m, ls)"
proof (induction fs arbitrary: c s)
  case Nil
  then show ?case by simp
next
  case (Cons f fs)
  obtain r1 s1 where fd: "friend_detail e f c s = (r1, s1)"
    by (cases "friend_detail e f c s")
  have one: "metrics s1 (m, ls) = metrics s (m, ls)"
    using friend_detail_metrics(1) [OF fd Cons.prems(2)] .
  show ?case
  proof (cases r1)
    case (Raise x)
    with fd Cons.prems(1) have "s' = s1" by (simp add: friend_details_step)
    with one show ?thesis by simp
  next
    case (Ret c1)
    with fd Cons.prems(1) have "friend_details e fs c1 s1 = (r, s')"
      by (simp add: friend_details_step)
    from Cons.IH [OF this Cons.prems(2)] one show ?thesis by simp
  qed
qed

lemma friend_details_absent_name:
  "friend_details e fs c s = (r, s') \<Longrightarrow>
     (\<And>kvs. JObj kvs \<in> set fs \<Longrightarrow>
            py_str e (dget kvs ''displayName'' (JStr ''unknown'')) \<noteq> d) \<Longrightarrow>
     metrics s' (FRIEND_DETAIL, d # ls) = metrics s (FRIEND_DETAIL, d # ls)"
proof (induction fs arbitrary: c s)
  case Nil
  then show ?case by simp
next
  case (Cons f fs)
  obtain r1 s1 where fd: "friend_detail e f c s = (r1, s1)"
    by (cases "friend_detail e f c s")
  have one: "metrics s1 (FRIEND_DETAIL, d # ls) = metrics s (FRIEND_DETAIL, d # ls)"
    using friend_detail_metrics(2) [OF fd] Cons.prems(2) by simp
  show ?case
  proof (cases r1)
    case (Raise x)
    with fd Cons.prems(1) have "s' = s1" by (simp add: friend_details_step)
    with one show ?thesis by simp
  next
    case (Ret c1)
    with fd Cons.prems(1) have "friend_details e fs c1 s1 = (r, s')"
      by (simp add: friend_details_step)
    from Cons.IH [OF this] Cons.prems(2) one show ?thesis by simp
  qed
qed

lemma friend_details_counts:
  assumes "friend_details e fs c s = (Ret c', s')"
  shows "(\<forall>a \<in> fst ` set (status_counts c'). a \<in> fst ` set (status_counts c)
            \<or> (\<exists>kvs. JObj kvs \<in> set fs \<and> a = dget kvs ''status'' (JStr ''offline'')))
       \<and> (\<forall>a \<in> fst ` set (platform_counts c'). a \<in> fst ` set (platform_counts c)
            \<or> (\<exists>kvs. JObj kvs \<in> set fs \<and> a = dget kvs ''last_platform'' (JStr ''unknown'')))
       \<and> (\<forall>w \<in> fst ` set (world_counts c'). w \<in> fst ` set (world_counts c)
            \<or> (\<exists>kvs l. JObj kvs \<in> set fs \<and> dget kvs ''location'' (JStr []) = JStr l
                  \<and> w = hd (split_on CHR '':'' l)))"
  using assms
proof (induction fs arbitrary: c s)
  case Nil
  then show ?case by simp
next
  case (Cons f fs)
  obtain r1 s1 where fd: "friend_detail e f c s = (r1, s1)"
    by (cases "friend_detail e f c s")
  from Cons.prems fd obtain c1 where r1: "r1 = Ret c1" and
    rest: "friend_details e fs c1 s1 = (Ret c', s')"
    by (cases r1) (auto simp: friend_details_step)
  from friend_detail_counts [OF fd [unfolded r1]] obtain kvs where f: "f = JObj kvs"
    and k1: "\<forall>a \<in> fst ` set (status_counts c1).
            a = dget kvs ''status'' (JStr ''offline'') \<or> a \<in> fst ` set (status_counts c)"
    and k2: "\<forall>a \<in> fst ` set (platform_counts c1).
            a = dget kvs ''last_platform'' (JStr ''unknown'') \<or> a \<in> fst ` set (platform_counts c)"
    and k3: "\<forall>w \<in> fst ` set (world_counts c1). w \<in> fst ` set (world_counts c)
            \<or> (\<exists>l. dget kvs ''location'' (JStr []) = JStr l \<and> w = hd (split_on CHR '':'' l))"
    by blast
  note ih = Cons.IH [OF rest]
  show ?case
  proof (intro conjI ballI)
    fix a assume "a \<in> fst ` set (status_counts c')"
    with ih k1 f show "a \<in> fst ` set (status_counts c)
            \<or> (\<exists>kvs. JObj kvs \<in> set (f # fs) \<and> a = dget kvs ''status'' (JStr ''offline''))"
      by (metis list.set_intros(1,2))
  next
    fix a assume "a \<in> fst ` set (platform_counts c')"
    with ih k2 f show "a \<in> fst ` set (platform_counts c)
            \<or> (\<exists>kvs. JObj kvs \<in> set (f # fs) \<and> a = dget kvs ''last_platform'' (JStr ''unknown''))"
      by (metis list.set_intros(1,2))
  next
    fix w assume "w \<in> fst ` set (world_counts c')"
    with ih k3 f show "w \<in> fst ` set (world_counts c)
            \<or> (\<exists>kvs l. JObj kvs \<in> set (f # fs) \<and> dget kvs ''location'' (JStr []) = JStr l
                  \<and> w = hd (split_on CHR '':'' l))"
      by (metis list.set_intros(1,2))
  qed
qed

lemma metrics_clear_other [simp]:
  "m' \<noteq> m \<Longrightarrow> metrics (metrics_clear m s) (m', ls) = metrics s (m', ls)"
  "metrics (metrics_clear m s) (m, ls) = None"
  by (simp_all add: metrics_clear_def)

text \<open>The ways through the body of the online-friends collector, as far as the registry
  is concerned: it raises before the third pass, with the registry as the first clear
  left it, or it reaches the third pass in such a state.\<close>

lemma friends_online_body_outcome:
  "\<exists>s3. metrics s3 = metrics (metrics_clear FRIEND_DETAIL s0)
     \<and> ((\<exists>x. friends_online_body e fs s0 = (Raise x, s3))
        \<or> (\<exists>x s4. friend_details e fs \<lparr>status_counts = [], platform_counts = [], world_counts = []\<rparr> s3
                     = (Raise x, s4)
                  \<and> friends_online_body e fs s0 = (Raise x, s4))
        \<or> (\<exists>c s4. friend_details e fs \<lparr>status_counts = [], platform_counts = [], world_counts = []\<rparr> s3
                     = (Ret c, s4)
                  \<and> friends_online_body e fs s0 =
                      (Ret (), push_world_counts e (world_counts c)
                         (metrics_clear FRIEND_WORLD_GAUGE
                            (push_counts e FRIEND_PLATFORM_GAUGE (platform_counts c)
                               (push_counts e FRIEND_STATUS_GAUGE (status_counts c) s4))))))"
proof -
  let ?s1 = "metrics_clear FRIEND_DETAIL s0"
  let ?c0 = "\<lparr>status_counts = [], platform_counts = [], world_counts = []\<rparr>"
  show ?thesis
  proof (cases "scan_worlds (world_cache ?s1) fs []")
    case (Raise x)
    then have "friends_online_body e fs s0 = (Raise x, ?s1)"
      by (simp add: friends_online_body_def)
    then show ?thesis by blast
  next
    case ids: (Ret ids)
    obtain r2 s2 where rw: "resolve_worlds e (set_order e ids) 0 ?s1 = (r2, s2)"
      by (cases "resolve_worlds e (set_order e ids) 0 ?s1")
    have m2: "metrics s2 = metrics ?s1"
      using resolve_worlds_metrics [of e "set_order e ids" 0 ?s1] rw by simp
    show ?thesis
    proof (cases r2)
      case (Raise x)
      with ids rw have "friends_online_body e fs s0 = (Raise x, s2)"
        by (simp add: friends_online_body_def seq_def)
      with m2 show ?thesis by blast
    next
      case r2: (Ret u2)
      show ?thesis
      proof (cases "scan_instances (instance_cache s2) fs []")
        case (Raise x)
        with ids rw r2 have "friends_online_body e fs s0 = (Raise x, s2)"
          by (simp add: friends_online_body_def seq_def)
        with m2 show ?thesis by blast
      next
        case us: (Ret us)
        obtain r3 s3 where ri: "resolve_instances e (take 20 us) s2 = (r3, s3)"
          by (cases "resolve_instances e (take 20 us) s2")
        have m3: "metrics s3 = metrics ?s1"
          using resolve_instances_metrics [of e "take 20 us" s2] ri m2 by simp
        show ?thesis
        proof (cases r3)
          case (Raise x)
          with ids rw r2 us ri have "friends_online_body e fs s0 = (Raise x, s3)"
            by (simp add: friends_online_body_def seq_def)
          with m3 show ?thesis by blast
        next
          case r3: (Ret u3)
          obtain r4 s4 where fd: "friend_details e fs ?c0 s3 = (r4, s4)"
            by (cases "friend_details e fs ?c0 s3")
          show ?thesis
          proof (cases r4)
            case (Raise x)
            with ids rw r2 us ri r3 fd have "friends_online_body e fs s0 = (Raise x, s4)"
              by (simp add: friends_online_body_def seq_def)
            with m3 fd Raise show ?thesis by blast
          next
            case (Ret c)
            with ids rw r2 us ri r3 fd have "friends_online_body e fs s0 =
                      (Ret (), push_world_counts e (world_counts c)
                         (metrics_clear FRIEND_WORLD_GAUGE
                            (push_counts e FRIEND_PLATFORM_GAUGE (platform_counts c)
                               (push_counts e FRIEND_STATUS_GAUGE (status_counts c) s4))))"
              by (simp add: friends_online_body_def seq_def)
            with m3 fd Ret show ?thesis by blast
          qed
        qed
      qed
    qed
  qed
qed

text \<open>
  Claim C10. The per-status and per-platform friend-count gauges are never cleared by the
  online-friends collector: an entry whose label is the status (or platform) of no friend
  of the current call keeps the value it had before the call, whatever the outcome of the
  call. The per-friend detail gauge and the per-world gauge, in contrast, are cleared: an
  entry for a display name that no current friend has is gone after the call, and after
  a call that returns normally so is an entry for a world that no current friend is in.
\<close>

theorem status_platform_gauges_persist:
  assumes run: "collect_friends_online e s = Some (r, s')"
      and pages: "fetch_pages e ''/auth/user/friends'' (friends_params ''false'') 0 [] s
                    = Some (all_friends, s0)"
  shows "((\<forall>kvs. JObj kvs \<in> set all_friends
              \<longrightarrow> py_str e (dget kvs ''status'' (JStr ''offline'')) \<noteq> l)
            \<longrightarrow> metrics s' (FRIEND_STATUS_GAUGE, [l]) = metrics s (FRIEND_STATUS_GAUGE, [l]))
       \<and> ((\<forall>kvs. JObj kvs \<in> set all_friends
              \<longrightarrow> py_str e (dget kvs ''last_platform'' (JStr ''unknown'')) \<noteq> l)
            \<longrightarrow> metrics s' (FRIEND_PLATFORM_GAUGE, [l]) = metrics s (FRIEND_PLATFORM_GAUGE, [l]))
       \<and> ((\<forall>kvs. JObj kvs \<in> set all_friends
              \<longrightarrow> py_str e (dget kvs ''displayName'' (JStr ''unknown'')) \<noteq> d)
            \<longrightarrow> metrics s' (FRIEND_DETAIL, d # ls) = None)
       \<and> (r = Ret () \<and> (\<forall>kvs loc. JObj kvs \<in> set all_friends
              \<longrightarrow> dget kvs ''location'' (JStr []) = JStr loc
              \<longrightarrow> hd (split_on CHR '':'' loc) \<noteq> wid)
            \<longrightarrow> metrics s' (FRIEND_WORLD_GAUGE, [wn, wid]) = None)"
proof -
  let ?c0 = "\<lparr>status_counts = [], platform_counts = [], world_counts = []\<rparr>"
  have body: "friends_online_body e all_friends s0 = (r, s')"
    using run pages by (simp add: collect_friends_online_def)
  have m0: "metrics s0 = metrics s" using fetch_pages_frame(1) [OF pages] .
  from friends_online_body_outcome [where ?s0.0 = s0 and e = e and fs = all_friends]
  obtain s3 where m3: "metrics s3 = metrics (metrics_clear FRIEND_DETAIL s0)"
    and cases: "(\<exists>x. friends_online_body e all_friends s0 = (Raise x, s3))
        \<or> (\<exists>x s4. friend_details e all_friends ?c0 s3 = (Raise x, s4)
                  \<and> friends_online_body e all_friends s0 = (Raise x, s4))
        \<or> (\<exists>c s4. friend_details e all_friends ?c0 s3 = (Ret c, s4)
                  \<and> friends_online_body e all_friends s0 =
                      (Ret (), push_world_counts e (world_counts c)
                         (metrics_clear FRIEND_WORLD_GAUGE
                            (push_counts e FRIEND_PLATFORM_GAUGE (platform_counts c)
                               (push_counts e FRIEND_STATUS_GAUGE (status_counts c) s4)))))"
    by blast
  have start: "metrics s3 (FRIEND_STATUS_GAUGE, [l]) = metrics s (FRIEND_STATUS_GAUGE, [l])"
      "metrics s3 (FRIEND_PLATFORM_GAUGE, [l]) = metrics s (FRIEND_PLATFORM_GAUGE, [l])"
      "metrics s3 (FRIEND_DETAIL, d # ls) = None"
    using m3 m0 by simp_all
  from cases show ?thesis
  proof (elim disjE exE conjE)
    fix x assume "friends_online_body e all_friends s0 = (Raise x, s3)"
    with body have "s' = s3" "r = Raise x" by simp_all
    with start show ?thesis by simp
  next
    fix x s4
    assume fd: "friend_details e all_friends ?c0 s3 = (Raise x, s4)"
      and "friends_online_body e all_friends s0 = (Raise x, s4)"
    with body have s': "s' = s4" "r = Raise x" by simp_all
    show ?thesis
      using start s' friend_details_other [OF fd] friend_details_absent_name [OF fd, of d ls]
      by simp
  next
    fix c s4
    assume fd: "friend_details e all_friends ?c0 s3 = (Ret c, s4)"
      and fin: "friends_online_body e all_friends s0 =
                      (Ret (), push_world_counts e (world_counts c)
                         (metrics_clear FRIEND_WORLD_GAUGE
                            (push_counts e FRIEND_PLATFORM_GAUGE (platform_counts c)
                               (push_counts e FRIEND_STATUS_GAUGE (status_counts c) s4))))"
    from fin body have s': "s' = push_world_counts e (world_counts c)
                         (metrics_clear FRIEND_WORLD_GAUGE
                            (push_counts e FRIEND_PLATFORM_GAUGE (platform_counts c)
                               (push_counts e FRIEND_STATUS_GAUGE (status_counts c) s4)))"
      by simp
    note keys = friend_details_counts [OF fd, simplified]
    have a: "(\<forall>kvs. JObj kvs \<in> set all_friends
              \<longrightarrow> py_str e (dget kvs ''status'' (JStr ''offline'')) \<noteq> l)
            \<longrightarrow> metrics s' (FRIEND_STATUS_GAUGE, [l]) = metrics s (FRIEND_STATUS_GAUGE, [l])"
    proof
      assume h: "\<forall>kvs. JObj kvs \<in> set all_friends
              \<longrightarrow> py_str e (dget kvs ''status'' (JStr ''offline'')) \<noteq> l"
      have "\<forall>k \<in> fst ` set (status_counts c). [py_str e k] \<noteq> [l]"
        using keys h by fastforce
      then show "metrics s' (FRIEND_STATUS_GAUGE, [l]) = metrics s (FRIEND_STATUS_GAUGE, [l])"
        unfolding s' using start(1) friend_details_other [OF fd]
        by (simp add: push_world_counts_other push_counts_other)
    qed
    have b: "(\<forall>kvs. JObj kvs \<in> set all_friends
              \<longrightarrow> py_str e (dget kvs ''last_platform'' (JStr ''unknown'')) \<noteq> l)
            \<longrightarrow> metrics s' (FRIEND_PLATFORM_GAUGE, [l]) = metrics s (FRIEND_PLATFORM_GAUGE, [l])"
    proof
      assume h: "\<forall>kvs. JObj kvs \<in> set all_friends
              \<longrightarrow> py_str e (dget kvs ''last_platform'' (JStr ''unknown'')) \<noteq> l"
      have "\<forall>k \<in> fst ` set (platform_counts c). [py_str e k] \<noteq> [l]"
        using keys h by fastforce
      then show "metrics s' (FRIEND_PLATFORM_GAUGE, [l]) = metrics s (FRIEND_PLATFORM_GAUGE, [l])"
        unfolding s' using start(2) friend_details_other [OF fd]
        by (simp add: push_world_counts_other push_counts_other)
    qed
    have c: "(\<forall>kvs. JObj kvs \<in> set all_friends
              \<longrightarrow> py_str e (dget kvs ''displayName'' (JStr ''unknown'')) \<noteq> d)
            \<longrightarrow> metrics s' (FRIEND_DETAIL, d # ls) = None"
      unfolding s' using start(3) friend_details_absent_name [OF fd, of d ls]
      by (simp add: push_world_counts_other push_counts_other)
    have d: "r = Ret () \<and> (\<forall>kvs loc. JObj kvs \<in> set all_friends
              \<longrightarrow> dget kvs ''location'' (JStr []) = JStr loc
              \<longrightarrow> hd (split_on CHR '':'' loc) \<noteq> wid)
            \<longrightarrow> metrics s' (FRIEND_WORLD_GAUGE, [wn, wid]) = None"
    proof
      assume h: "r = Ret () \<and> (\<forall>kvs loc. JObj kvs \<in> set all_friends
              \<longrightarrow> dget kvs ''location'' (JStr []) = JStr loc
              \<longrightarrow> hd (split_on CHR '':'' loc) \<noteq> wid)"
      have "\<forall>k \<in> fst ` set (world_counts c). \<forall>n. [n, k] \<noteq> [wn, wid]"
        using keys h by fastforce
      then show "metrics s' (FRIEND_WORLD_GAUGE, [wn, wid]) = None"
        unfolding s' by (simp add: push_world_counts_other)
    qed
    from a b c d show ?thesis by blast
  qed
qed

theorem status_platform_gauges_persist_witness:
  "\<exists>r s'. collect_friends_online busy_env stale_state = Some (r, s')
     \<and> metrics stale_state (FRIEND_STATUS_GAUGE, [''join me'']) = Some 4
     \<and> metrics s' (FRIEND_STATUS_GAUGE, [''join me'']) = Some 4
     \<and> metrics s' (FRIEND_PLATFORM_GAUGE, [''ios'']) = Some 3
     \<and> metrics s' (FRIEND_DETAIL, [''Zed'', ''join me'', ''ios'', ''private'', ''private'', ''unknown'']) = None"
proof -
  have "map_option fst (fetch_pages busy_env ''/auth/user/friends'' (friends_params ''false'') 0 []
          stale_state) = Some busy_friends"
    by code_simp
  then obtain s0 where pages:
    "fetch_pages busy_env ''/auth/user/friends'' (friends_params ''false'') 0 [] stale_state
       = Some (busy_friends, s0)"
    by (cases "fetch_pages busy_env ''/auth/user/friends'' (friends_params ''false'') 0 [] stale_state")
       auto
  obtain r s' where body: "friends_online_body busy_env busy_friends s0 = (r, s')"
    by (cases "friends_online_body busy_env busy_friends s0")
  have run: "collect_friends_online busy_env stale_state = Some (r, s')"
    using pages body by (simp add: collect_friends_online_def)
  have h1: "\<forall>kvs. JObj kvs \<in> set busy_friends
              \<longrightarrow> py_str busy_env (dget kvs ''status'' (JStr ''offline'')) \<noteq> ''join me''"
    by (auto simp: busy_friends_def py_str_def dget_def)
  have h2: "\<forall>kvs. JObj kvs \<in> set busy_friends
              \<longrightarrow> py_str busy_env (dget kvs ''last_platform'' (JStr ''unknown'')) \<noteq> ''ios''"
    by (auto simp: busy_friends_def py_str_def dget_def)
  have h3: "\<forall>kvs. JObj kvs \<in> set busy_friends
              \<longrightarrow> py_str busy_env (dget kvs ''displayName'' (JStr ''unknown'')) \<noteq> ''Zed''"
    by (auto simp: busy_friends_def py_str_def dget_def)
  have v: "metrics stale_state (FRIEND_STATUS_GAUGE, [''join me'']) = Some 4"
      "metrics stale_state (FRIEND_PLATFORM_GAUGE, [''ios'']) = Some 3"
    by (simp_all add: stale_state_def gauge_put_def)
  from status_platform_gauges_persist [OF run pages, of "''join me''" "''Zed''"
      "[''join me'', ''ios'', ''private'', ''private'', ''unknown'']"] h1 h3
    status_platform_gauges_persist [OF run pages, of "''ios''"] h2 v run
  show ?thesis by auto
qed

subsection \<open>The caches\<close>

lemma caches_same_refl [simp]: "caches_same s s"
  by (simp add: caches_same_def)

lemma caches_same_trans: "caches_same s s1 \<Longrightarrow> caches_same s1 s2 \<Longrightarrow> caches_same s s2"
  by (simp add: caches_same_def)

lemma metrics_only_caches_same: "metrics_only s s' \<Longrightarrow> caches_same s s'"
  by (simp add: metrics_only_def caches_same_def)

lemma cache_kept_refl [simp]: "cache_kept s s"
  by (simp add: cache_kept_def)

lemma cache_kept_trans: "cache_kept s s1 \<Longrightarrow> cache_kept s1 s2 \<Longrightarrow> cache_kept s s2"
  unfolding cache_kept_def by (metis (no_types, lifting))

lemma caches_same_kept: "caches_same s s' \<Longrightarrow> cache_kept s s'"
  by (simp add: caches_same_def cache_kept_def)

lemma cache_kept_same_left: "caches_same s s1 \<Longrightarrow> cache_kept s1 s2 \<Longrightarrow> cache_kept s s2"
  by (simp add: caches_same_def cache_kept_def)

lemma cache_kept_same_right: "cache_kept s s1 \<Longrightarrow> caches_same s1 s2 \<Longrightarrow> cache_kept s s2"
  by (simp add: caches_same_def cache_kept_def)

lemma client_get_caches_same [simp]: "caches_same s (snd (client_get e ep ps s))"
  by (simp add: caches_same_def client_get_caches)

lemma caches_same_ops [simp]:
  "caches_same s (gauge_put m ls v s)"
  "caches_same s (metrics_clear m s)"
  "caches_same s (counter_inc m ls s)"
  "caches_same s (snd (gauge_set e m ls j s))"
  "caches_same s (snd (set_len m j s))"
  by (simp_all add: metrics_only_caches_same)

lemma fetch_pages_caches_same:
  "fetch_pages e ep mk off acc s = Some (res, s') \<Longrightarrow> caches_same s s'"
  using fetch_pages_frame [of e ep mk off acc s res s'] by (simp add: caches_same_def)

text \<open>The first pass collects the referenced ids that are not keys of the world cache.\<close>

lemma unknown_worlds_Cons:
  "unknown_worlds cache (f # fs) =
     (case referenced_world f of
        None \<Rightarrow> unknown_worlds cache fs
      | Some w \<Rightarrow> (if w \<in> set (map fst cache) then {} else {w}) \<union> unknown_worlds cache fs)"
  by (auto simp: unknown_worlds_def split: option.splits)

lemma py_split_Ret [simp]:
  "py_split v c = Ret ps \<longleftrightarrow> (\<exists>s. v = JStr s \<and> ps = split_on c s)"
  by (cases v) auto

lemma py_get_Ret [simp]:
  "py_get f k d = Ret v \<longleftrightarrow> (\<exists>kvs. f = JObj kvs \<and> v = dget kvs k d)"
  by (cases f) (auto simp: dget_def)

lemma scan_worlds_step:
  "scan_worlds cache (f # fs) acc = Ret ids \<Longrightarrow>
     scan_worlds cache fs
       (case referenced_world f of
          None \<Rightarrow> acc
        | Some w \<Rightarrow> if w \<notin> set (map fst cache) \<and> w \<notin> set acc then acc @ [w] else acc) = Ret ids"
  by (auto simp: referenced_world_def Let_def split: res.splits if_splits json.splits)

lemma scan_worlds_set:
  "scan_worlds cache fs acc = Ret ids \<Longrightarrow> distinct acc \<Longrightarrow>
     distinct ids \<and> set ids = set acc \<union> unknown_worlds cache fs"
proof (induction fs arbitrary: acc)
  case Nil
  then show ?case by (simp add: unknown_worlds_def)
next
  case (Cons f fs)
  let ?acc = "case referenced_world f of
          None \<Rightarrow> acc
        | Some w \<Rightarrow> if w \<notin> set (map fst cache) \<and> w \<notin> set acc then acc @ [w] else acc"
  have d: "distinct ?acc" using Cons.prems(2) by (simp split: option.splits)
  from Cons.IH [OF scan_worlds_step [OF Cons.prems(1)] d]
  show ?case
    by (auto simp: unknown_worlds_Cons split: option.splits if_splits)
qed

lemma unknown_worlds_absent: "w \<in> unknown_worlds cache fs \<Longrightarrow> w \<notin> fst ` set cache"
  by (auto simp: unknown_worlds_def)

lemma world_insert_fields [simp]:
  "world_cache (world_insert k r s) = AList.update k r (world_cache s)"
  "next_oid (world_insert k r s) = Suc (next_oid s)"
  by (simp_all add: world_insert_def)

lemma resolve_worlds_step:
  "resolve_worlds e (wid # rest) n s =
     (if n \<ge> MAX_WORLD_LOOKUPS e then (Ret (), s)
      else
        (let wdata = get_result e (length (requests s)) (''/worlds/'' @ wid) [];
             s1 = snd (client_get e (''/worlds/'' @ wid) [] s)
         in case (if truthy wdata then py_in ''name'' wdata else Ret False) of
              Raise x \<Rightarrow> (Raise x, s1)
            | Ret True \<Rightarrow>
                (case world_fields (next_oid s) wid wdata of
                   Raise x \<Rightarrow> (Raise x, s1)
                 | Ret r \<Rightarrow> resolve_worlds e rest (n + 1) (world_insert wid r s1))
            | Ret False \<Rightarrow>
                resolve_worlds e rest (n + 1) (world_insert wid (placeholder (next_oid s) wid) s1)))"
proof -
  obtain w s1 where g: "client_get e (''/worlds/'' @ wid) [] s = (w, s1)"
    by (cases "client_get e (''/worlds/'' @ wid) [] s")
  have w: "w = get_result e (length (requests s)) (''/worlds/'' @ wid) []"
    using client_get_result [of e "''/worlds/'' @ wid" "[]" s] g by simp
  have o: "next_oid s1 = next_oid s"
    using client_get_caches(3) [of e "''/worlds/'' @ wid" "[]" s] g by simp
  show ?thesis using g w o by (simp add: Let_def split: res.splits bool.splits)
qed

lemma client_get_length [simp]:
  "length (requests (snd (client_get e ep ps s))) = Suc (length (requests s))"
  using client_get_requests [of e ep ps s "fst (client_get e ep ps s)" "snd (client_get e ep ps s)"]
  by simp

lemma resolve_worlds_others:
  "k \<notin> set ids \<Longrightarrow>
     map_of (world_cache (snd (resolve_worlds e ids n s))) k = map_of (world_cache s) k"
  "instance_cache (snd (resolve_worlds e ids n s)) = instance_cache s"
proof (induction ids arbitrary: n s)
  case Nil
  { case 1 show ?case by simp }
  { case 2 show ?case by simp }
next
  case (Cons wid rest)
  { case 1
    then have k: "k \<noteq> wid" "k \<notin> set rest" by auto
    show ?case
      unfolding resolve_worlds_step Let_def
      by (simp add: Cons.IH(1) [OF k(2)] update_conv' k(1) client_get_caches
            split: res.splits bool.splits) }
  { case 2
    show ?case
      unfolding resolve_worlds_step Let_def
      by (simp add: Cons.IH(2) client_get_caches world_insert_def
            split: res.splits bool.splits) }
qed

lemma update_absent: "k \<notin> fst ` set al \<Longrightarrow> AList.update k v al = al @ [(k, v)]"
  by (induction al) auto

lemma resolve_worlds_Ret:
  "resolve_worlds e ids n s = (Ret (), s') \<Longrightarrow> distinct ids \<Longrightarrow>
     set ids \<inter> fst ` set (world_cache s) = {} \<Longrightarrow>
     map fst (world_cache s')
       = map fst (world_cache s) @ take (nat (MAX_WORLD_LOOKUPS e - n)) ids
     \<and> (\<forall>j < min (length ids) (nat (MAX_WORLD_LOOKUPS e - n)).
           map_of (world_cache s') (ids ! j)
             = Some (world_entry (next_oid s + j) (ids ! j)
                       (get_result e (length (requests s) + j) (''/worlds/'' @ ids ! j) [])))"
proof (induction ids arbitrary: n s)
  case Nil
  then show ?case by simp
next
  case (Cons wid rest)
  show ?case
  proof (cases "n \<ge> MAX_WORLD_LOOKUPS e")
    case True
    with Cons.prems(1) show ?thesis by simp
  next
    case False
    let ?w = "get_result e (length (requests s)) (''/worlds/'' @ wid) []"
    let ?s1 = "snd (client_get e (''/worlds/'' @ wid) [] s)"
    let ?E = "world_entry (next_oid s) wid ?w"
    let ?s2 = "world_insert wid ?E ?s1"
    have nat: "nat (MAX_WORLD_LOOKUPS e - n) = Suc (nat (MAX_WORLD_LOOKUPS e - (n + 1)))"
      using False by simp
    have c1: "world_cache ?s1 = world_cache s" by (simp add: client_get_caches)
    have absent: "wid \<notin> fst ` set (world_cache s)" using Cons.prems(3) by auto
    have run: "resolve_worlds e rest (n + 1) ?s2 = (Ret (), s')"
      using Cons.prems(1) False unfolding resolve_worlds_step Let_def
      by (auto simp: world_entry_def world_fields_def placeholder_def
               split: res.splits bool.splits json.splits if_splits)
    have c2: "world_cache ?s2 = world_cache s @ [(wid, ?E)]"
      using absent c1 by (simp add: update_absent)
    have d: "distinct rest" "wid \<notin> set rest" using Cons.prems(2) by simp_all
    have disj: "set rest \<inter> fst ` set (world_cache ?s2) = {}"
      using Cons.prems(3) d c2 by auto
    note ih = Cons.IH [OF run d(1) disj]
    have len: "length (requests ?s2) = Suc (length (requests s))" by simp
    have oid: "next_oid ?s2 = Suc (next_oid s)" by (simp add: client_get_caches)
    have keys: "map fst (world_cache s')
       = map fst (world_cache s) @ take (nat (MAX_WORLD_LOOKUPS e - n)) (wid # rest)"
      using ih c2 nat by simp
    have "map_of (world_cache ?s2) wid = Some ?E" by (simp add: update_conv')
    then have head: "map_of (world_cache s') wid = Some ?E"
      using resolve_worlds_others(1) [OF d(2), of e "n + 1" ?s2] run by simp
    have "\<forall>j < min (length (wid # rest)) (nat (MAX_WORLD_LOOKUPS e - n)).
           map_of (world_cache s') ((wid # rest) ! j)
             = Some (world_entry (next_oid s + j) ((wid # rest) ! j)
                       (get_result e (length (requests s) + j) (''/worlds/'' @ (wid # rest) ! j) []))"
    proof (intro allI impI)
      fix j assume j: "j < min (length (wid # rest)) (nat (MAX_WORLD_LOOKUPS e - n))"
      show "map_of (world_cache s') ((wid # rest) ! j)
             = Some (world_entry (next_oid s + j) ((wid # rest) ! j)
                       (get_result e (length (requests s) + j) (''/worlds/'' @ (wid # rest) ! j) []))"
      proof (cases j)
        case 0
        with head show ?thesis by simp
      next
        case (Suc j')
        with j nat have "j' < min (length rest) (nat (MAX_WORLD_LOOKUPS e - (n + 1)))" by simp
        with ih have "map_of (world_cache s') (rest ! j')
             = Some (world_entry (next_oid ?s2 + j') (rest ! j')
                       (get_result e (length (requests ?s2) + j') (''/worlds/'' @ rest ! j') []))"
          by blast
        with Suc len oid show ?thesis by simp
      qed
    qed
    with keys show ?thesis by blast
  qed
qed

lemma scan_instances_keys:
  "scan_instances cache fs acc = Ret us \<Longrightarrow> fst ` set acc \<inter> fst ` set cache = {} \<Longrightarrow>
     fst ` set us \<inter> fst ` set cache = {}"
proof (induction fs arbitrary: acc)
  case Nil
  then show ?case by simp
next
  case (Cons f fs)
  from Cons.prems(1) obtain acc' where
    step: "scan_instances cache fs acc' = Ret us" and
    acc': "acc' = acc \<or> (\<exists>key v. key \<notin> set (map fst cache) \<and> acc' = AList.update key v acc)"
    by (auto simp: Let_def split: res.splits if_splits list.splits)
  have "fst ` set acc' \<subseteq> fst ` set acc \<union> {k. k \<notin> fst ` set cache}"
    using acc' by (auto dest!: update_mem_keys; force)
  then have "fst ` set acc' \<inter> fst ` set cache = {}"
    using Cons.prems(2) by blast
  from Cons.IH [OF step this] show ?case .
qed

lemma inst_insert_fields [simp]:
  "instance_cache (inst_insert k r s) = AList.update k r (instance_cache s)"
  "next_oid (inst_insert k r s) = Suc (next_oid s)"
  by (simp_all add: inst_insert_def)

lemma resolve_instances_step:
  "resolve_instances e ((key, wid, iid) # rest) s =
     (let inst = get_result e (length (requests s)) (''/instances/'' @ wid @ '':'' @ iid) [];
          s1 = snd (client_get e (''/instances/'' @ wid @ '':'' @ iid) [] s)
      in if truthy inst
         then (case inst_fields (next_oid s) s1 wid iid inst of
                 Raise x \<Rightarrow> (Raise x, s1)
               | Ret r \<Rightarrow> resolve_instances e rest (inst_insert key r s1))
         else resolve_instances e rest s1)"
proof -
  obtain w s1 where g: "client_get e (''/instances/'' @ wid @ '':'' @ iid) [] s = (w, s1)"
    by (cases "client_get e (''/instances/'' @ wid @ '':'' @ iid) [] s")
  have w: "w = get_result e (length (requests s)) (''/instances/'' @ wid @ '':'' @ iid) []"
    using client_get_result [of e "''/instances/'' @ wid @ '':'' @ iid" "[]" s] g by simp
  have o: "next_oid s1 = next_oid s"
    using client_get_caches(3) [of e "''/instances/'' @ wid @ '':'' @ iid" "[]" s] g by simp
  show ?thesis using g w o by (simp add: Let_def split: res.splits)
qed

lemma resolve_instances_others:
  "k \<notin> fst ` set us \<Longrightarrow>
     map_of (instance_cache (snd (resolve_instances e us s))) k = map_of (instance_cache s) k"
  "world_cache (snd (resolve_instances e us s)) = world_cache s"
proof (induction us arbitrary: s)
  case Nil
  { case 1 show ?case by simp }
  { case 2 show ?case by simp }
next
  case (Cons u rest)
  obtain key wid iid where u: "u = (key, wid, iid)" by (cases u)
  { case 1
    then have k: "k \<noteq> key" "k \<notin> fst ` set rest" using u by auto
    show ?case
      unfolding u resolve_instances_step Let_def
      using k(1) by (simp add: Cons.IH(1) [OF k(2)] update_conv' client_get_caches split: res.splits) }
  { case 2
    show ?case
      unfolding u resolve_instances_step Let_def
      by (simp add: Cons.IH(2) client_get_caches inst_insert_def split: res.splits) }
qed

lemma metrics_only_friend_detail [simp]: "metrics_only s (snd (friend_detail e f c s))"
  by (simp add: friend_detail_def Let_def split: json.splits res.splits bool.splits)

lemma metrics_only_friend_details [simp]: "metrics_only s (snd (friend_details e fs c s))"
proof (induction fs arbitrary: c s)
  case Nil
  show ?case by simp
next
  case (Cons f fs)
  have a: "metrics_only s (snd (friend_detail e f c s))" by simp
  show ?case
    unfolding friend_details_step
    using a metrics_only_trans [OF a Cons.IH] by (auto split: res.splits)
qed

lemma metrics_only_push_counts [simp]: "metrics_only s (push_counts e m d s)"
proof (induction d arbitrary: s)
  case Nil
  show ?case by simp
next
  case (Cons kv d)
  obtain k n where kv: "kv = (k, n)" by (cases kv)
  show ?case unfolding kv push_counts.simps
    by (rule metrics_only_trans [OF metrics_only_ops(1) Cons.IH])
qed

lemma metrics_only_push_world_counts [simp]: "metrics_only s (push_world_counts e d s)"
proof (induction d arbitrary: s)
  case Nil
  show ?case by simp
next
  case (Cons kv d)
  obtain k n where kv: "kv = (k, n)" by (cases kv)
  show ?case unfolding kv push_world_counts.simps
    by (rule metrics_only_trans [OF metrics_only_ops(1) Cons.IH])
qed

lemma seq_kept:
  assumes "cache_kept s (snd m)" "\<And>a. fst m = Ret a \<Longrightarrow> cache_kept (snd m) (snd (f a (snd m)))"
  shows "cache_kept s (snd (seq m f))"
  using assms by (auto simp: seq_cases split: res.splits intro: cache_kept_trans)

lemma resolve_worlds_kept:
  assumes "set ids \<inter> fst ` set (world_cache s) = {}"
  shows "cache_kept s (snd (resolve_worlds e ids n s))"
proof -
  have "map_of (world_cache s) k = Some r \<Longrightarrow>
        map_of (world_cache (snd (resolve_worlds e ids n s))) k = Some r" for k r
  proof -
    assume a: "map_of (world_cache s) k = Some r"
    then have "k \<in> fst ` set (world_cache s)" by (metis map_of_eq_None_iff option.distinct(1))
    with assms have "k \<notin> set ids" by auto
    from resolve_worlds_others(1) [OF this] a show ?thesis by simp
  qed
  then show ?thesis
    by (auto simp: cache_kept_def resolve_worlds_others(2))
qed

lemma resolve_instances_kept:
  assumes "fst ` set us \<inter> fst ` set (instance_cache s) = {}"
  shows "cache_kept s (snd (resolve_instances e us s))"
proof -
  have "map_of (instance_cache s) k = Some r \<Longrightarrow>
        map_of (instance_cache (snd (resolve_instances e us s))) k = Some r" for k r
  proof -
    assume a: "map_of (instance_cache s) k = Some r"
    then have "k \<in> fst ` set (instance_cache s)" by (metis map_of_eq_None_iff option.distinct(1))
    with assms have "k \<notin> fst ` set us" by auto
    from resolve_instances_others(1) [OF this] a show ?thesis by simp
  qed
  then show ?thesis
    by (auto simp: cache_kept_def resolve_instances_others(2))
qed

lemma final_pushes_metrics_only:
  "metrics_only s (push_world_counts e a (metrics_clear m (push_counts e m1 b (push_counts e m2 c s))))"
  by (rule metrics_only_trans [OF metrics_only_push_counts],
      rule metrics_only_trans [OF metrics_only_push_counts],
      rule metrics_only_trans [OF metrics_only_ops(2)],
      rule metrics_only_push_world_counts)

lemma friends_online_body_kept:
  assumes v: "valid_set_order e"
  shows "cache_kept s0 (snd (friends_online_body e fs s0))"
proof -
  let ?s1 = "metrics_clear FRIEND_DETAIL s0"
  let ?c0 = "\<lparr>status_counts = [], platform_counts = [], world_counts = []\<rparr>"
  have k1: "cache_kept s0 ?s1" by (simp add: caches_same_kept)
  show ?thesis
  proof (cases "scan_worlds (world_cache ?s1) fs []")
    case (Raise x)
    then show ?thesis using k1 by (simp add: friends_online_body_def)
  next
    case (Ret ids)
    from scan_worlds_set [OF Ret] have ids: "distinct ids"
      "set ids = unknown_worlds (world_cache ?s1) fs" by simp_all
    have "set (set_order e ids) = set ids"
      using v ids(1) by (simp add: valid_set_order_def)
    then have "set (set_order e ids) \<inter> fst ` set (world_cache ?s1) = {}"
      using ids(2) unknown_worlds_absent by blast
    then have k2: "cache_kept ?s1 (snd (resolve_worlds e (set_order e ids) 0 ?s1))"
      by (rule resolve_worlds_kept)
    have rest: "cache_kept s2
        (snd (case scan_instances (instance_cache s2) fs [] of
                Raise x \<Rightarrow> (Raise x, s2)
              | Ret unknown_instances \<Rightarrow>
                  seq (resolve_instances e (take 20 unknown_instances) s2)
                    (\<lambda>_ s3. seq (friend_details e fs ?c0 s3)
                      (\<lambda>c s4.
                         (Ret (),
                          push_world_counts e (world_counts c)
                            (metrics_clear FRIEND_WORLD_GAUGE
                               (push_counts e FRIEND_PLATFORM_GAUGE (platform_counts c)
                                  (push_counts e FRIEND_STATUS_GAUGE (status_counts c) s4))))))))"
      for s2
    proof (cases "scan_instances (instance_cache s2) fs []")
      case (Raise x)
      then show ?thesis by simp
    next
      case us: (Ret us)
      from scan_instances_keys [OF us] have "fst ` set us \<inter> fst ` set (instance_cache s2) = {}"
        by simp
      then have "fst ` set (take 20 us) \<inter> fst ` set (instance_cache s2) = {}"
        using set_take_subset [of 20 us] by blast
      then have k3: "cache_kept s2 (snd (resolve_instances e (take 20 us) s2))"
        by (rule resolve_instances_kept)
      have k4: "cache_kept s3 (snd (seq (friend_details e fs ?c0 s3)
                      (\<lambda>c s4.
                         (Ret (),
                          push_world_counts e (world_counts c)
                            (metrics_clear FRIEND_WORLD_GAUGE
                               (push_counts e FRIEND_PLATFORM_GAUGE (platform_counts c)
                                  (push_counts e FRIEND_STATUS_GAUGE (status_counts c) s4)))))))" for s3
        by (rule caches_same_kept, rule metrics_only_caches_same, rule metrics_only_seq)
           (simp_all add: final_pushes_metrics_only)
      show ?thesis
        unfolding us res.case
        by (rule seq_kept [OF k3]) (rule k4)
    qed
    show ?thesis
      unfolding friends_online_body_def Let_def Ret res.case
      by (rule cache_kept_trans [OF k1], rule seq_kept [OF k2], rule rest)
  qed
qed

lemma world_update_oid: "world_update k w r = Ret r' \<Longrightarrow> w_oid r' = w_oid r"
  by (auto simp: world_update_def split: json.splits)

lemma inst_update_oid: "inst_update w r = Ret r' \<Longrightarrow> i_oid r' = i_oid r"
  by (auto simp: inst_update_def split: json.splits)

lemma refresh_worlds_kept: "cache_kept s (snd (refresh_worlds e ks n s))"
proof (induction ks arbitrary: n s)
  case Nil
  show ?case by simp
next
  case (Cons k rest)
  obtain w s1 where g: "client_get e (''/worlds/'' @ k) [] s = (w, s1)"
    by (cases "client_get e (''/worlds/'' @ k) [] s")
  have k1: "cache_kept s s1"
    using client_get_caches_same [of s e "''/worlds/'' @ k" "[]"] unfolding g
    by (simp add: caches_same_kept)
  have upd: "cache_kept s1 (s1\<lparr>world_cache := AList.update k r' (world_cache s1)\<rparr>)"
    if "map_of (world_cache s1) k = Some r" "world_update k w r = Ret r'" for r r'
    using that world_update_oid by (auto simp: cache_kept_def update_conv')
  show ?case
    using g k1 upd Cons.IH
    by (auto split: res.splits bool.splits option.splits; meson cache_kept_trans)
qed

lemma collect_world_metrics_kept: "cache_kept s (snd (collect_world_metrics e s))"
proof (cases "world_cache s = []")
  case True
  then show ?thesis by (simp add: collect_world_metrics_def)
next
  case False
  have "cache_kept s1 (snd (seq (push_worlds e (world_cache s1) s1)
          (\<lambda>_ s2. (Ret (), gauge_put WORLDS_CACHED [] (of_nat (length (world_cache s2))) s2))))" for s1
    by (rule caches_same_kept, rule metrics_only_caches_same, rule metrics_only_seq) simp_all
  then show ?thesis
    using False unfolding collect_world_metrics_def
    by (simp add: seq_kept [OF refresh_worlds_kept])
qed

lemma refresh_instances_kept: "cache_kept s (snd (refresh_instances e ks s))"
proof (induction ks arbitrary: s)
  case Nil
  show ?case by simp
next
  case (Cons k rest)
  show ?case
  proof (cases "map_of (instance_cache s) k")
    case None
    then show ?thesis using Cons.IH by simp
  next
    case (Some info)
    let ?ep = "''/instances/'' @ i_world_id info @ '':'' @ i_instance_id info"
    obtain w s1 where g: "client_get e ?ep [] s = (w, s1)"
      by (cases "client_get e ?ep [] s")
    have c1: "caches_same s s1"
      using client_get_caches_same [of s e ?ep "[]"] unfolding g by simp
    have k1: "cache_kept s s1" using c1 by (rule caches_same_kept)
    show ?thesis
    proof (cases "if truthy w then inst_update w info else Ret info")
      case (Raise x)
      with Some g k1 show ?thesis by (simp add: Let_def)
    next
      case (Ret info')
      have o: "i_oid info' = i_oid info"
        using Ret inst_update_oid by (auto split: if_splits)
      let ?s2 = "s1\<lparr>instance_cache := AList.update k info' (instance_cache s1)\<rparr>"
      have k2: "cache_kept s1 ?s2"
        using Some c1 o by (auto simp: cache_kept_def caches_same_def update_conv')
      have k3: "cache_kept ?s2 (snd (seq (gauge_set e INSTANCE_PLAYER_COUNT
                            [i_world_id info, py_str e (world_name_of ?s2 (i_world_id info)),
                             i_instance_id info, py_str e (i_type info'), py_str e (i_region info')]
                            (i_playerCount info') ?s2)
                       (\<lambda>_ s3. refresh_instances e rest s3)))"
        by (rule seq_kept) (simp_all add: caches_same_kept Cons.IH)
      show ?thesis
        using Some g Ret cache_kept_trans [OF k1 cache_kept_trans [OF k2 k3]]
        by (simp add: Let_def)
    qed
  qed
qed

lemma collect_instance_metrics_kept: "cache_kept s (snd (collect_instance_metrics e s))"
  unfolding collect_instance_metrics_def Let_def
  by (rule cache_kept_same_left [OF caches_same_ops(2) refresh_instances_kept])

lemma collect_platform_caches_same: "caches_same s (snd (collect_platform e s))"
proof -
  obtain d s1 where g: "client_get e ''/visits'' [] s = (d, s1)"
    by (cases "client_get e ''/visits'' [] s")
  have c: "caches_same s s1"
    using client_get_caches_same [of s e "''/visits''" "[]"] unfolding g by simp
  show ?thesis
    using g c by (auto simp: collect_platform_def caches_same_def gauge_set_def Let_def split: res.splits)
qed

lemma collect_current_user_caches_same: "caches_same s (snd (collect_current_user e s))"
proof -
  obtain d s1 where g: "client_get e ''/auth/user'' [] s = (d, s1)"
    by (cases "client_get e ''/auth/user'' [] s")
  have c: "caches_same s s1"
    using client_get_caches_same [of s e "''/auth/user''" "[]"] unfolding g by simp
  have tail: "caches_same t (snd (
        seq (set_len FRIENDS_ONLINE a t)
          (\<lambda>_ s4. seq (set_len FRIENDS_OFFLINE b s4)
          (\<lambda>_ s5. seq (set_len FRIENDS_ACTIVE c s5)
          (\<lambda>_ s6. set_len FRIENDS_TOTAL d' s6)))))" for t a b c d'
    by (rule metrics_only_caches_same)
       (intro metrics_only_seq metrics_only_ops)
  show ?thesis
    unfolding collect_current_user_def g prod.case Let_def
    using c tail [of "gauge_put USER_TRUST_RANK [] _ _"]
    by (auto simp: caches_same_def split: res.splits bool.splits json.splits)
qed

lemma collect_friends_offline_caches_same:
  "collect_friends_offline e s = Some (r, s') \<Longrightarrow> caches_same s s'"
  by (auto simp: collect_friends_offline_def caches_same_def split: option.splits
           dest!: fetch_pages_caches_same)

lemma collect_favorites_caches_same:
  "collect_favorites e s = Some (r, s') \<Longrightarrow> caches_same s s'"
  using metrics_only_caches_same [OF metrics_only_trans [OF metrics_only_ops(2) metrics_only_push_counts]]
  by (auto simp: collect_favorites_def caches_same_def split: option.splits res.splits
           dest!: fetch_pages_caches_same)

lemma authenticate_caches_same: "caches_same s (snd (authenticate e s))"
proof -
  obtain d s1 where g: "client_get e ''/auth/user'' [] s = (d, s1)"
    by (cases "client_get e ''/auth/user'' [] s")
  have c: "caches_same s s1"
    using client_get_caches_same [of s e "''/auth/user''" "[]"] unfolding g by simp
  show ?thesis
    unfolding authenticate_def g prod.case
    using c by (auto simp: caches_same_def split: res.splits bool.splits json.splits)
qed

lemma seq_opt_kept:
  assumes "\<And>r1 s1. m = Some (r1, s1) \<Longrightarrow> cache_kept s s1"
      and "\<And>a s1 r2 s2. f a s1 = Some (r2, s2) \<Longrightarrow> cache_kept s1 s2"
      and "seq_opt m f = Some (r, s')"
  shows "cache_kept s s'"
  using assms
  by (auto simp: seq_opt_def split: option.splits res.splits intro: cache_kept_trans)

lemma collect_friends_online_kept:
  assumes "valid_set_order e" "collect_friends_online e s = Some (r, s')"
  shows "cache_kept s s'"
proof -
  from assms(2) obtain fs s0 where
    pages: "fetch_pages e ''/auth/user/friends'' (friends_params ''false'') 0 [] s = Some (fs, s0)"
    and body: "friends_online_body e fs s0 = (r, s')"
    by (auto simp: collect_friends_online_def split: option.splits)
  have "cache_kept s0 s'"
    using friends_online_body_kept [OF assms(1), of s0 fs] body by simp
  with fetch_pages_caches_same [OF pages] show ?thesis by (rule cache_kept_same_left)
qed

lemma scrape_all_kept:
  assumes v: "valid_set_order e" and run: "scrape_all e cycle s = Some (r, s')"
  shows "cache_kept s s'"
proof (rule seq_opt_kept [OF _ _ run [unfolded scrape_all_def Let_def]], goal_cases)
  case (1 r1 s1)
  then show ?case using collect_platform_caches_same [of s e] by (auto intro: caches_same_kept)
next
  case (2 a s1 r2 s2)
  from 2 show ?case
  proof (rule seq_opt_kept [rotated 2], goal_cases)
    case (1 r1 t1)
    then show ?case using collect_current_user_caches_same [of s1 e] by (auto intro: caches_same_kept)
  next
    case (2 a s2 r3 s3)
    from 2 show ?case
    proof (rule seq_opt_kept [rotated 2], goal_cases)
      case (1 r1 t1)
      then show ?case using collect_friends_online_kept [OF v] by blast
    next
      case (2 a s3 r4 s4)
      from 2 show ?case
      proof (rule seq_opt_kept [rotated 2], goal_cases)
        case (1 r1 t1)
        then show ?case using collect_world_metrics_kept [of s3 e] by auto
      next
        case (2 a s4 r5 s5)
        from 2 show ?case
        proof (rule seq_opt_kept [rotated 2], goal_cases)
          case (1 r1 t1)
          then show ?case using collect_instance_metrics_kept [of s4 e]
            by (auto split: if_splits)
        next
          case (2 a s5 r6 s6)
          from 2 show ?case
          proof (rule seq_opt_kept [rotated 2], goal_cases)
            case (1 r1 t1)
            then show ?case
              by (auto split: if_splits dest!: collect_friends_offline_caches_same
                       intro: caches_same_kept)
          next
            case (2 a s6 r7 s7)
            from 2 show ?case
            proof (rule seq_opt_kept [rotated 2], goal_cases)
              case (1 r1 t1)
              then show ?case
                by (auto split: if_splits dest!: collect_favorites_caches_same
                         intro: caches_same_kept)
            next
              case (2 a s7 r8 s8)
              then show ?case by (auto simp: cache_kept_def)
            qed
          qed
        qed
      qed
    qed
  qed
qed

lemma after_try_caches_same: "caches_same s (snd (after_try e c (r, s)))"
  by (auto simp: after_try_def sleep_interval_def caches_same_def Let_def split: res.splits)

lemma run_cycle_kept:
  assumes "valid_set_order e" "run_cycle e cycle s = Some (r, s')"
  shows "cache_kept s s'"
proof -
  from assms(2) obtain r1 s1 where sc: "scrape_all e (cycle + 1) s = Some (r1, s1)"
    and fin: "after_try e (cycle + 1) (r1, s1) = (r, s')"
    by (auto simp: run_cycle_def split: option.splits)
  have "caches_same s1 s'" using after_try_caches_same [of s1 e "cycle + 1" r1] fin by simp
  with scrape_all_kept [OF assms(1) sc] show ?thesis by (rule cache_kept_same_right)
qed

lemma main_tick_kept:
  assumes v: "valid_set_order e" and run: "main_tick e cycle s = Some (r, s')"
  shows "cache_kept s s'"
proof (cases "authenticated s")
  case True
  with run have "run_cycle e cycle s = Some (r, s')" by (simp add: main_tick_def)
  then show ?thesis by (rule run_cycle_kept [OF v])
next
  case False
  obtain ra s1 where a: "authenticate e s = (ra, s1)" by (cases "authenticate e s")
  have c1: "caches_same s s1" using authenticate_caches_same [of s e] a by simp
  show ?thesis
  proof (cases ra)
    case (Raise x)
    with False a run have "s' = snd (after_try e cycle (Raise x :: unit res, s1))"
      by (auto simp: main_tick_def)
    then have "caches_same s1 s'" using after_try_caches_same by simp
    with c1 show ?thesis by (auto intro: caches_same_kept caches_same_trans)
  next
    case (Ret ok)
    show ?thesis
    proof (cases ok)
      case True
      with Ret False a run have "run_cycle e cycle s1 = Some (r, s')" by (simp add: main_tick_def)
      from cache_kept_same_left [OF c1 run_cycle_kept [OF v this]] show ?thesis .
    next
      case no: False
      with Ret False a run have "s' = s1\<lparr>clock := clock s1 + 60\<rparr>" by (simp add: main_tick_def)
      with c1 show ?thesis by (auto simp: caches_same_def cache_kept_def)
    qed
  qed
qed

lemma main_ticks_kept:
  "valid_set_order e \<Longrightarrow> main_ticks e n cycle s = Some (r, s') \<Longrightarrow> cache_kept s s'"
proof (induction n arbitrary: cycle s)
  case 0
  then show ?case by simp
next
  case (Suc n)
  from Suc.prems(2) obtain r1 s1 where t: "main_tick e cycle s = Some (r1, s1)"
    by (auto split: option.splits)
  note k1 = main_tick_kept [OF Suc.prems(1) t]
  show ?case
  proof (cases r1)
    case (Raise x)
    with t Suc.prems(2) have "s' = s1" by simp
    with k1 show ?thesis by simp
  next
    case (Ret c1)
    with t Suc.prems(2) have "main_ticks e n c1 s1 = Some (r, s')" by simp
    from cache_kept_trans [OF k1 Suc.IH [OF Suc.prems(1) this]] show ?thesis .
  qed
qed

text \<open>
  Claim C9. A key of the world cache or of the instance cache stays a key of that cache,
  bound to the same dict object, across the online-friends collector, the two refresh
  collectors, a whole scrape cycle, and any number of iterations of the main loop:
  collectors insert new keys or change the fields of existing records in place, and
  nothing deletes an entry or rebinds a key.
\<close>

theorem cache_entries_never_removed:
  assumes "valid_set_order e"
  shows "(collect_friends_online e s = Some (r, s') \<longrightarrow> cache_kept s s')
       \<and> cache_kept s (snd (collect_world_metrics e s))
       \<and> cache_kept s (snd (collect_instance_metrics e s))
       \<and> (scrape_all e cycle s = Some (r, s') \<longrightarrow> cache_kept s s')
       \<and> (main_ticks e n cycle s = Some (r', s'') \<longrightarrow> cache_kept s s'')"
proof (intro conjI impI)
  show "collect_friends_online e s = Some (r, s') \<Longrightarrow> cache_kept s s'"
    by (rule collect_friends_online_kept [OF assms])
  show "cache_kept s (snd (collect_world_metrics e s))"
    by (rule collect_world_metrics_kept)
  show "cache_kept s (snd (collect_instance_metrics e s))"
    by (rule collect_instance_metrics_kept)
  show "scrape_all e cycle s = Some (r, s') \<Longrightarrow> cache_kept s s'"
    by (rule scrape_all_kept [OF assms])
  show "main_ticks e n cycle s = Some (r', s'') \<Longrightarrow> cache_kept s s''"
    by (rule main_ticks_kept [OF assms])
qed

lemma cache_kept_world:
  "cache_kept s s' \<Longrightarrow> map_of (world_cache s) k = Some r \<Longrightarrow>
     \<exists>r'. map_of (world_cache s') k = Some r' \<and> w_oid r' = w_oid r"
  by (simp add: cache_kept_def)

theorem cache_entries_never_removed_witness:
  "valid_set_order demo_env
   \<and> map_of (world_cache cached_state) ''wrld_a'' = Some (placeholder 0 ''wrld_a'')
   \<and> (\<exists>r s'. collect_friends_online demo_env cached_state = Some (r, s')
          \<and> cache_kept cached_state s')
   \<and> (\<exists>r'. map_of (world_cache (snd (collect_world_metrics busy_env cached_state))) ''wrld_a''
              = Some r' \<and> w_oid r' = 0)
   \<and> (\<exists>r s'. scrape_all demo_env 1 cached_state = Some (r, s') \<and> cache_kept cached_state s')
   \<and> (\<exists>r s'. main_ticks demo_env 1 0 cached_state = Some (r, s')
          \<and> (\<exists>r'. map_of (world_cache s') ''wrld_a'' = Some r' \<and> w_oid r' = 0))"
proof -
  have v: "valid_set_order demo_env"
    by (simp add: valid_set_order_def demo_env_def)
  have vb: "valid_set_order busy_env"
    by (simp add: valid_set_order_def busy_env_def)
  have c: "map_of (world_cache cached_state) ''wrld_a'' = Some (placeholder 0 ''wrld_a'')"
    by (simp add: cached_state_def)
  have "map_option fst (collect_friends_online demo_env cached_state) = Some (Ret ())"
    by code_simp
  then obtain r1 s1 where f: "collect_friends_online demo_env cached_state = Some (r1, s1)"
    by auto
  have "map_option fst (scrape_all demo_env 1 cached_state) = Some (Raise TypeError)"
    by code_simp
  then obtain r2 s2 where sc: "scrape_all demo_env 1 cached_state = Some (r2, s2)"
    by auto
  have "map_option fst (main_ticks demo_env 1 0 cached_state) = Some (Ret 1)"
    by code_simp
  then obtain r3 s3 where t: "main_ticks demo_env 1 0 cached_state = Some (r3, s3)"
    by auto
  note thm1 = cache_entries_never_removed [OF v, of cached_state r1 s1 0 1 r3 s3]
  note thm2 = cache_entries_never_removed [OF v, of cached_state r2 s2 1 1 r3 s3]
  note thm3 = cache_entries_never_removed [OF vb, of cached_state r2 s2 1 1 r3 s3]
  have k1: "cache_kept cached_state s1" using thm1 f by blast
  have k2: "cache_kept cached_state s2" using thm2 sc by blast
  have k3: "cache_kept cached_state s3" using thm1 t by blast
  have k4: "cache_kept cached_state (snd (collect_world_metrics busy_env cached_state))"
    using thm3 by blast
  have w3: "\<exists>r'. map_of (world_cache s3) ''wrld_a'' = Some r' \<and> w_oid r' = 0"
    using cache_kept_world [OF k3 c] by (simp add: placeholder_def)
  have w4: "\<exists>r'. map_of (world_cache (snd (collect_world_metrics busy_env cached_state))) ''wrld_a''
              = Some r' \<and> w_oid r' = 0"
    using cache_kept_world [OF k4 c] by (simp add: placeholder_def)
  from v c f k1 sc k2 t w3 w4 show ?thesis by blast
qed

text \<open>The path through the body of the online-friends collector that returns normally.\<close>

lemma friends_online_body_Ret:
  assumes "friends_online_body e fs s0 = (Ret (), s')"
  shows "\<exists>ids s2 us s3.
           scan_worlds (world_cache s0) fs [] = Ret ids
         \<and> resolve_worlds e (set_order e ids) 0 (metrics_clear FRIEND_DETAIL s0) = (Ret (), s2)
         \<and> scan_instances (instance_cache s2) fs [] = Ret us
         \<and> resolve_instances e (take 20 us) s2 = (Ret (), s3)
         \<and> world_cache s' = world_cache s2
         \<and> instance_cache s' = instance_cache s3"
proof -
  let ?s1 = "metrics_clear FRIEND_DETAIL s0"
  let ?c0 = "\<lparr>status_counts = [], platform_counts = [], world_counts = []\<rparr>"
  from assms obtain ids where ids: "scan_worlds (world_cache s0) fs [] = Ret ids"
    by (cases "scan_worlds (world_cache s0) fs []") (auto simp: friends_online_body_def)
  obtain r2 s2 where rw: "resolve_worlds e (set_order e ids) 0 ?s1 = (r2, s2)"
    by (cases "resolve_worlds e (set_order e ids) 0 ?s1")
  from assms ids rw have r2: "r2 = Ret ()"
    by (cases r2) (auto simp: friends_online_body_def seq_def)
  from assms ids rw r2 obtain us where us: "scan_instances (instance_cache s2) fs [] = Ret us"
    by (cases "scan_instances (instance_cache s2) fs []") (auto simp: friends_online_body_def seq_def)
  obtain r3 s3 where ri: "resolve_instances e (take 20 us) s2 = (r3, s3)"
    by (cases "resolve_instances e (take 20 us) s2")
  from assms ids rw r2 us ri have r3: "r3 = Ret ()"
    by (cases r3) (auto simp: friends_online_body_def seq_def)
  obtain r4 s4 where fd: "friend_details e fs ?c0 s3 = (r4, s4)"
    by (cases "friend_details e fs ?c0 s3")
  from assms ids rw r2 us ri r3 fd obtain c where r4: "r4 = Ret c"
    by (cases r4) (auto simp: friends_online_body_def seq_def)
  from assms ids rw r2 us ri r3 fd r4
  have s': "s' = push_world_counts e (world_counts c)
                   (metrics_clear FRIEND_WORLD_GAUGE
                      (push_counts e FRIEND_PLATFORM_GAUGE (platform_counts c)
                         (push_counts e FRIEND_STATUS_GAUGE (status_counts c) s4)))"
    by (simp add: friends_online_body_def seq_def)
  have m4: "metrics_only s3 s4"
    using metrics_only_friend_details [of s3 e fs ?c0] fd by simp
  have "metrics_only s4 s'" unfolding s' by (rule final_pushes_metrics_only)
  with m4 have "metrics_only s3 s'" by (rule metrics_only_trans)
  then have c3: "world_cache s' = world_cache s3" "instance_cache s' = instance_cache s3"
    by (simp_all add: metrics_only_def)
  have "world_cache s3 = world_cache s2"
    using resolve_instances_others(2) [of e "take 20 us" s2] ri by simp
  with c3 ids rw r2 us ri r3 show ?thesis by auto
qed

text \<open>What one call of the online-friends collector that returns normally does to the
  world cache: it appends, in the iteration order of the set of unknown ids, the first
  \<open>MAX_WORLD_LOOKUPS\<close> of them.\<close>

lemma world_lookup_cap:
  assumes v: "valid_set_order e"
      and run: "collect_friends_online e s = Some (Ret (), s')"
      and pages: "fetch_pages e ''/auth/user/friends'' (friends_params ''false'') 0 [] s
                    = Some (all_friends, s0)"
  shows "\<exists>ids. distinct ids \<and> set ids = unknown_worlds (world_cache s) all_friends
           \<and> map fst (world_cache s')
               = map fst (world_cache s) @ take (nat (MAX_WORLD_LOOKUPS e)) ids
           \<and> (\<forall>j < min (length ids) (nat (MAX_WORLD_LOOKUPS e)).
                 map_of (world_cache s') (ids ! j)
                   = Some (world_entry (next_oid s + j) (ids ! j)
                       (get_result e (length (requests s0) + j) (''/worlds/'' @ ids ! j) [])))"
proof -
  let ?s1 = "metrics_clear FRIEND_DETAIL s0"
  have body: "friends_online_body e all_friends s0 = (Ret (), s')"
    using run pages by (simp add: collect_friends_online_def)
  have c0: "world_cache s0 = world_cache s" "next_oid s0 = next_oid s"
    using fetch_pages_frame [OF pages] by simp_all
  from friends_online_body_Ret [OF body] obtain ids0 s2 where
    sc: "scan_worlds (world_cache s0) all_friends [] = Ret ids0" and
    rw: "resolve_worlds e (set_order e ids0) 0 ?s1 = (Ret (), s2)" and
    c2: "world_cache s' = world_cache s2"
    by blast
  from scan_worlds_set [OF sc] have ids0: "distinct ids0"
    "set ids0 = unknown_worlds (world_cache s) all_friends" using c0 by simp_all
  let ?ids = "set_order e ids0"
  have ids: "distinct ?ids" "set ?ids = unknown_worlds (world_cache s) all_friends"
    using v ids0 by (simp_all add: valid_set_order_def)
  have disj: "set ?ids \<inter> fst ` set (world_cache ?s1) = {}"
    using ids(2) c0 unknown_worlds_absent by fastforce
  from resolve_worlds_Ret [OF rw ids(1) disj] c2 c0
  have "map fst (world_cache s')
               = map fst (world_cache s) @ take (nat (MAX_WORLD_LOOKUPS e)) ?ids
           \<and> (\<forall>j < min (length ?ids) (nat (MAX_WORLD_LOOKUPS e)).
                 map_of (world_cache s') (?ids ! j)
                   = Some (world_entry (next_oid s + j) (?ids ! j)
                       (get_result e (length (requests s0) + j) (''/worlds/'' @ ?ids ! j) [])))"
    by simp
  with ids show ?thesis by blast
qed

subsection \<open>Runs of the online-friends collector that return\<close>

lemma split_on_nonempty [simp]: "split_on c l \<noteq> []"
  by (induction l) (auto split: list.splits)

lemma split_on_two: "c \<in> set l \<Longrightarrow> \<exists>w p ps. split_on c l = w # p # ps"
proof (induction l)
  case Nil
  then show ?case by simp
next
  case (Cons x xs)
  show ?case
  proof (cases "x = c")
    case True
    obtain p ps where "split_on c xs = p # ps"
      using split_on_nonempty [of c xs] by (cases "split_on c xs") auto
    then show ?thesis using True by simp
  next
    case False
    then have "c \<in> set xs" using Cons.prems by simp
    from Cons.IH [OF this] obtain w p ps where "split_on c xs = w # p # ps" by blast
    then show ?thesis using False by simp
  qed
qed

lemma split_on_prefix: "c \<notin> set p \<Longrightarrow> split_on c (p @ c # r) = p # split_on c r"
  by (induction p) auto

lemma sublist_single: "sublist [c] l \<longleftrightarrow> c \<in> set l"
  by (induction l) (auto simp: sublist_Cons_right)

lemma scan_worlds_returns:
  "\<forall>f \<in> set fs. plain_friend f \<Longrightarrow> \<exists>ids. scan_worlds cache fs acc = Ret ids"
proof (induction fs arbitrary: acc)
  case Nil
  then show ?case by simp
next
  case (Cons f fs)
  from Cons.prems obtain kvs l where f: "f = JObj kvs" and l: "dget kvs ''location'' (JStr []) = JStr l"
    by (cases f) (auto split: json.splits)
  have rest: "\<And>acc. \<exists>ids. scan_worlds cache fs acc = Ret ids"
    using Cons.IH Cons.prems by simp
  have g: "py_get f ''location'' (JStr []) = Ret (JStr l)"
    using f l by (simp add: dget_def)
  show ?case
    unfolding scan_worlds.simps g using rest by (simp add: Let_def)
qed

lemma scan_instances_returns:
  "\<forall>f \<in> set fs. plain_friend f \<Longrightarrow> \<exists>us. scan_instances cache fs acc = Ret us"
proof (induction fs arbitrary: acc)
  case Nil
  then show ?case by simp
next
  case (Cons f fs)
  from Cons.prems obtain kvs l where f: "f = JObj kvs" and l: "dget kvs ''location'' (JStr []) = JStr l"
    by (cases f) (auto split: json.splits)
  have rest: "\<And>acc. \<exists>us. scan_instances cache fs acc = Ret us"
    using Cons.IH Cons.prems by simp
  have g: "py_get f ''location'' (JStr []) = Ret (JStr l)"
    using f l by (simp add: dget_def)
  show ?case
  proof (cases "CHR '':'' \<in> set l")
    case True
    from split_on_two [OF True] obtain w p ps where sp: "split_on CHR '':'' l = w # p # ps"
      by blast
    have nz: "l \<noteq> []" using True by auto
    show ?thesis
      unfolding scan_instances.simps g using rest sp True nz
      by (simp add: Let_def sublist_single)
  next
    case False
    show ?thesis
      unfolding scan_instances.simps g using rest False
      by (simp add: Let_def sublist_single)
  qed
qed

lemma resolve_worlds_returns:
  "\<forall>n wid. dict_or_none (get_result e n (''/worlds/'' @ wid) []) \<Longrightarrow>
     fst (resolve_worlds e ids k s) = Ret ()"
proof (induction ids arbitrary: k s)
  case Nil
  then show ?case by simp
next
  case (Cons wid rest)
  let ?w = "get_result e (length (requests s)) (''/worlds/'' @ wid) []"
  have d: "dict_or_none ?w" using Cons.prems by blast
  have ih: "\<And>k s. fst (resolve_worlds e rest k s) = Ret ()"
    using Cons.IH Cons.prems by blast
  show ?case
    unfolding resolve_worlds_step using d ih
    by (cases ?w) (auto simp: Let_def world_fields_def split: bool.splits)
qed

lemma resolve_instances_returns:
  "\<forall>n k. dict_or_none (get_result e n (''/instances/'' @ k) []) \<Longrightarrow>
     fst (resolve_instances e us s) = Ret ()"
proof (induction us arbitrary: s)
  case Nil
  then show ?case by simp
next
  case (Cons u rest)
  obtain key wid iid where u: "u = (key, wid, iid)" by (cases u) auto
  let ?ep = "''/instances/'' @ wid @ '':'' @ iid"
  obtain inst s1 where g: "client_get e ?ep [] s = (inst, s1)"
    by (cases "client_get e ?ep [] s")
  have "inst = get_result e (length (requests s)) (''/instances/'' @ (wid @ '':'' @ iid)) []"
    using client_get_result [of e ?ep "[]" s] g by simp
  then have d: "dict_or_none inst" using Cons.prems by (simp only:)
  have ih: "\<And>s. fst (resolve_instances e rest s) = Ret ()"
    using Cons.IH Cons.prems by blast
  show ?case
    unfolding u resolve_instances.simps g using d ih
    by (cases inst) (simp_all add: inst_fields_def)
qed

lemma friend_detail_returns:
  "plain_friend f \<Longrightarrow> \<exists>c'. fst (friend_detail e f c s) = Ret c'"
proof -
  assume p: "plain_friend f"
  then obtain kvs l where f: "f = JObj kvs" and l: "dget kvs ''location'' (JStr []) = JStr l"
    and h1: "hashable (dget kvs ''status'' (JStr ''offline''))"
    and h2: "hashable (dget kvs ''last_platform'' (JStr ''unknown''))"
    by (cases f) (auto split: json.splits)
  show ?thesis
    unfolding f friend_detail_def using l h1 h2
    by (auto simp: Let_def count_bump_def split: bool.splits)
qed

lemma friend_details_returns:
  "\<forall>f \<in> set fs. plain_friend f \<Longrightarrow> \<exists>c'. fst (friend_details e fs c s) = Ret c'"
proof (induction fs arbitrary: c s)
  case Nil
  then show ?case by simp
next
  case (Cons f fs)
  have p: "plain_friend f" using Cons.prems by simp
  from friend_detail_returns [OF p, of e c s] obtain c1 where
    c1: "fst (friend_detail e f c s) = Ret c1" by blast
  then obtain s1 where d: "friend_detail e f c s = (Ret c1, s1)"
    by (cases "friend_detail e f c s") auto
  have "\<exists>c'. fst (friend_details e fs c1 s1) = Ret c'"
    using Cons.IH Cons.prems by simp
  then show ?case by (simp add: d)
qed

lemma friends_online_body_returns:
  assumes fs: "\<forall>f \<in> set fs. plain_friend f"
      and wl: "\<forall>n wid. dict_or_none (get_result e n (''/worlds/'' @ wid) [])"
      and il: "\<forall>n k. dict_or_none (get_result e n (''/instances/'' @ k) [])"
  shows "fst (friends_online_body e fs s0) = Ret ()"
proof -
  let ?s1 = "metrics_clear FRIEND_DETAIL s0"
  from scan_worlds_returns [OF fs] obtain ids where
    ids: "scan_worlds (world_cache ?s1) fs [] = Ret ids" by blast
  obtain r2 s2 where rw: "resolve_worlds e (set_order e ids) 0 ?s1 = (r2, s2)"
    by (cases "resolve_worlds e (set_order e ids) 0 ?s1")
  have r2: "r2 = Ret ()" using resolve_worlds_returns [OF wl, of "set_order e ids" 0 ?s1] rw by simp
  from scan_instances_returns [OF fs] obtain us where
    us: "scan_instances (instance_cache s2) fs [] = Ret us" by blast
  obtain r3 s3 where ri: "resolve_instances e (take 20 us) s2 = (r3, s3)"
    by (cases "resolve_instances e (take 20 us) s2")
  have r3: "r3 = Ret ()" using resolve_instances_returns [OF il, of "take 20 us" s2] ri by simp
  from friend_details_returns [OF fs] obtain c where
    "fst (friend_details e fs \<lparr>status_counts = [], platform_counts = [], world_counts = []\<rparr> s3) = Ret c"
    by blast
  then obtain s4 where fd: "friend_details e fs
       \<lparr>status_counts = [], platform_counts = [], world_counts = []\<rparr> s3 = (Ret c, s4)"
    by (cases "friend_details e fs \<lparr>status_counts = [], platform_counts = [], world_counts = []\<rparr> s3") auto
  show ?thesis
    unfolding friends_online_body_def Let_def ids
    using rw r2 us ri r3 fd by (simp add: seq_def)
qed

text \<open>Rules for evaluating a run on a concrete environment, one statement at a time.\<close>

lemma seq_Ret: "seq (Ret a, s) f = f a s"
  by (simp add: seq_def)

lemma seq_Raise: "seq (Raise x, s) f = (Raise x, s)"
  by (simp add: seq_def)

lemma seq_weak_cong: "m = m' \<Longrightarrow> seq m f = seq m' f"
  by simp

lemma seq_opt_simps:
  "seq_opt None f = None"
  "seq_opt (Some (Ret a, s)) f = f a s"
  "seq_opt (Some (Raise x, s)) f = Some (Raise x, s)"
  by (simp_all add: seq_opt_def)

lemma seq_opt_weak_cong: "m = m' \<Longrightarrow> seq_opt m f = seq_opt m' f"
  by simp

lemmas eval_defs = seq_Ret seq_Raise seq_opt_simps
  client_get_def throttle_def Let_def world_insert_def placeholder_def
  world_fields_def inst_fields_def inst_insert_def dget_def friend_detail_def count_bump_def
  gauge_put_def metrics_clear_def py_str_def or_unknown_def world_name_of_def
  parse_instance_type_def endpoint_label_def INSTANCE_TYPE_MAP_def sublist_Cons_right
  init_state_def friends_online_body_def collect_friends_online_def collect_platform_def
  collect_current_user_def collect_friends_offline_def collect_world_metrics_def
  collect_instance_metrics_def collect_favorites_def scrape_all_def main_tick_def run_cycle_def
  after_try_def sleep_interval_def authenticate_def fetch_pages.simps friends_params_def
  favorites_params_def gauge_set_def child_def counter_inc_def set_len_def trust_rank_value_def
  TRUST_RANK_MAP_def world_update_def inst_update_def fav_tag_def cached_state_def


subsection \<open>The friend list of 100 worlds\<close>

lemma fetch_two_pages:
  assumes p1: "get_result e (length (requests s)) ep (mk off) = JArr xs"
      and l: "length xs = 100"
      and p2: "get_result e (Suc (length (requests s))) ep (mk (off + 100)) = JArr []"
  shows "fetch_pages e ep mk off acc s
         = Some (acc @ xs, snd (client_get e ep (mk (off + 100)) (snd (client_get e ep (mk off) s))))"
proof -
  obtain a s1 where g1: "client_get e ep (mk off) s = (a, s1)"
    by (cases "client_get e ep (mk off) s")
  have a: "a = JArr xs" using client_get_result [of e ep "mk off" s] g1 p1 by simp
  have n1: "length (requests s1) = Suc (length (requests s))"
    using client_get_length [of e ep "mk off" s] g1 by simp
  obtain b s2 where g2: "client_get e ep (mk (off + 100)) s1 = (b, s2)"
    by (cases "client_get e ep (mk (off + 100)) s1")
  have b: "b = JArr []" using client_get_result [of e ep "mk (off + 100)" s1] g2 p2 n1 by simp
  have ne: "xs \<noteq> []" using l by auto
  have "fetch_pages e ep mk off acc s = fetch_pages e ep mk (off + 100) (acc @ xs) s1"
    by (subst fetch_pages.simps) (simp add: g1 a ne l)
  also have "\<dots> = Some (acc @ xs, s2)"
    by (subst fetch_pages.simps) (simp add: g2 b)
  finally show ?thesis by (simp add: g1 g2)
qed

lemma map_filter_all_Some:
  "\<forall>x \<in> set xs. f (g x) = Some (h x) \<Longrightarrow> List.map_filter f (map g xs) = map h xs"
  by (induction xs) simp_all

lemma world_no_colon_free: "CHR '':'' \<notin> set (world_no i)"
  by (simp add: world_no_def)

lemma world_no_inj: "inj world_no"
proof (rule injI)
  fix i j assume "world_no i = world_no j"
  then have "length (world_no i) = length (world_no j)" by simp
  then show "i = j" by (simp add: world_no_def)
qed

lemma crowd_referenced:
  "referenced_world (JObj [(''location'', JStr (world_no i @ '':1''))]) = Some (world_no i)"
proof -
  have s: "split_on CHR '':'' (world_no i @ CHR '':'' # ''1'') = world_no i # split_on CHR '':'' ''1''"
    by (rule split_on_prefix [OF world_no_colon_free])
  have n: "world_no i @ '':1'' \<noteq> [] \<and> world_no i @ '':1'' \<notin> set [''private'', ''offline'', ''traveling'']"
    by (simp add: world_no_def)
  show ?thesis
    unfolding referenced_world_def using s n by (simp add: dget_def)
qed

lemma crowd_worlds: "List.map_filter referenced_world crowd = map world_no [0..<100]"
  unfolding crowd_def by (rule map_filter_all_Some) (simp add: crowd_referenced)

lemma crowd_unknown: "card (unknown_worlds [] crowd) = 100"
proof -
  have "unknown_worlds [] crowd = world_no ` {0..<100}"
    unfolding unknown_worlds_def crowd_worlds by simp
  moreover have "card (world_no ` {0..<100}) = card {0..<100::nat}"
    by (rule card_image) (rule inj_on_subset [OF world_no_inj], simp)
  ultimately show ?thesis by simp
qed

lemma crowd_length: "length crowd = 100"
  by (simp add: crowd_def)

lemma crowd_plain: "\<forall>f \<in> set crowd. plain_friend f"
  by (auto simp: crowd_def dget_def)

lemma crowd_env_pages:
  "get_result crowd_env n ''/auth/user/friends'' (friends_params ''false'' 0) = JArr crowd"
  "get_result crowd_env n ''/auth/user/friends'' (friends_params ''false'' (0 + 100)) = JArr []"
  "get_result odd_env n ''/auth/user/friends'' (friends_params ''false'' 0) = JArr crowd"
  "get_result odd_env n ''/auth/user/friends'' (friends_params ''false'' (0 + 100)) = JArr []"
  by (simp_all add: get_result_def crowd_env_def odd_env_def friends_params_def)

lemma crowd_env_lookups:
  "dict_or_none (get_result crowd_env n (''/worlds/'' @ wid) [])"
  "dict_or_none (get_result crowd_env n (''/instances/'' @ k) [])"
  "get_result odd_env n (''/worlds/'' @ wid) [] = JNum 5"
  by (simp_all add: get_result_def crowd_env_def odd_env_def)

lemma crowd_env_order: "valid_set_order crowd_env" "set_order odd_env xs = xs"
  "MAX_WORLD_LOOKUPS crowd_env = 40" "MAX_WORLD_LOOKUPS odd_env = 40"
  by (simp_all add: valid_set_order_def crowd_env_def odd_env_def)

lemma crowd_env_fetch:
  "fetch_pages crowd_env ''/auth/user/friends'' (friends_params ''false'') 0 [] s
   = Some (crowd, snd (client_get crowd_env ''/auth/user/friends'' (friends_params ''false'' (0 + 100))
                   (snd (client_get crowd_env ''/auth/user/friends'' (friends_params ''false'' 0) s))))"
  using fetch_two_pages [of crowd_env s "''/auth/user/friends''" "friends_params ''false''" 0 crowd "[]",
      OF crowd_env_pages(1) crowd_length crowd_env_pages(2)]
  by simp

lemma odd_env_fetch:
  "fetch_pages odd_env ''/auth/user/friends'' (friends_params ''false'') 0 [] s
   = Some (crowd, snd (client_get odd_env ''/auth/user/friends'' (friends_params ''false'' (0 + 100))
                   (snd (client_get odd_env ''/auth/user/friends'' (friends_params ''false'' 0) s))))"
  using fetch_two_pages [of odd_env s "''/auth/user/friends''" "friends_params ''false''" 0 crowd "[]",
      OF crowd_env_pages(3) crowd_length crowd_env_pages(4)]
  by simp

subsection \<open>The cap on world lookups\<close>

lemma take_drop_card:
  assumes d: "distinct ids"
  shows "card (set (take c ids)) = min (length ids) c"
    and "card (set (drop c ids)) = length ids - c"
    and "set (take c ids) \<inter> set (drop c ids) = {}"
    and "set ids = set (take c ids) \<union> set (drop c ids)"
proof -
  have dt: "distinct (take c ids)" and dd: "distinct (drop c ids)"
    using d by simp_all
  show "card (set (take c ids)) = min (length ids) c"
    using distinct_card [OF dt] by simp
  show "card (set (drop c ids)) = length ids - c"
    using distinct_card [OF dd] by simp
  have "distinct (take c ids @ drop c ids)" using d by simp
  then show "set (take c ids) \<inter> set (drop c ids) = {}"
    unfolding distinct_append by blast
  have "set (take c ids @ drop c ids) = set ids" by simp
  then show "set ids = set (take c ids) \<union> set (drop c ids)"
    unfolding set_append by blast
qed

lemma unknown_worlds_after:
  "fst ` set wc' = fst ` set wc \<union> N \<Longrightarrow>
   unknown_worlds wc' fs = unknown_worlds wc fs - fst ` set wc'"
  by (auto simp: unknown_worlds_def)

lemma lookup_raises:
  assumes sc: "scan_worlds (world_cache s0) fs [] = Ret ids"
      and ne: "set_order e ids \<noteq> []"
      and cap: "0 < MAX_WORLD_LOOKUPS e"
      and five: "\<forall>n wid. get_result e n (''/worlds/'' @ wid) [] = JNum 5"
  shows "fst (friends_online_body e fs s0) = Raise TypeError
       \<and> world_cache (snd (friends_online_body e fs s0)) = world_cache s0"
proof -
  let ?s1 = "metrics_clear FRIEND_DETAIL s0"
  obtain w rest where o: "set_order e ids = w # rest" using ne by (cases "set_order e ids") auto
  have sc1: "scan_worlds (world_cache ?s1) fs [] = Ret ids" using sc by simp
  have r: "resolve_worlds e (w # rest) 0 ?s1
           = (Raise TypeError, snd (client_get e (''/worlds/'' @ w) [] ?s1))"
    unfolding resolve_worlds_step using cap five by (simp add: Let_def)
  have b: "friends_online_body e fs s0
           = (Raise TypeError, snd (client_get e (''/worlds/'' @ w) [] ?s1))"
    by (simp add: friends_online_body_def Let_def seq_def sc o r del: resolve_worlds.simps)
  show ?thesis unfolding b by (simp add: client_get_caches)
qed




subsection \<open>What a collector writes and requests\<close>

lemma collects_refl [simp]: "collects P s s"
  by (simp add: collects_def)

lemma collects_trans: "collects P s t \<Longrightarrow> collects P t u \<Longrightarrow> collects P s u"
  unfolding collects_def by (elim conjE exE, intro conjI) (simp, force)

lemma collects_mono: "collects P s t \<Longrightarrow> (\<And>q. P q \<Longrightarrow> Q q) \<Longrightarrow> collects Q s t"
  unfolding collects_def by blast

lemma collects_requests:
  "collects P s t \<Longrightarrow> requests t = requests s @ new_requests s t \<and> (\<forall>q \<in> set (new_requests s t). P q)"
  unfolding collects_def new_requests_def by auto

lemma collects_gauges:
  "collects P s t \<Longrightarrow> cycle_gauge m \<Longrightarrow> metrics t (m, ls) = metrics s (m, ls)"
  unfolding collects_def by simp

lemma collects_get:
  assumes "\<And>t. P (t, ep, ps)"
  shows "collects P s (snd (client_get e ep ps s))"
proof -
  obtain r s' where g: "client_get e ep ps s = (r, s')" by (cases "client_get e ep ps s")
  from client_get_requests [OF g] have "requests s' = requests s @ [(clock (throttle e s), ep, ps)]"
    by simp
  moreover have "metrics s' = metrics s" using client_get_caches(4) [of e ep ps s] g by simp
  ultimately show ?thesis using assms by (simp add: collects_def g)
qed

lemma collects_metrics_only:
  "metrics_only t t' \<Longrightarrow> (\<And>k. cycle_gauge (fst k) \<Longrightarrow> metrics t' k = metrics t k) \<Longrightarrow>
     collects P s t \<Longrightarrow> collects P s t'"
  unfolding collects_def metrics_only_def by simp

lemma collects_ops [simp]:
  "\<not> cycle_gauge m \<Longrightarrow> collects P s (gauge_put m ls v t) = collects P s t"
  "\<not> cycle_gauge m \<Longrightarrow> collects P s (counter_inc m ls t) = collects P s t"
  "\<not> cycle_gauge m \<Longrightarrow> collects P s (metrics_clear m t) = collects P s t"
  "\<not> cycle_gauge m \<Longrightarrow> collects P s (child m ls t) = collects P s t"
  "\<not> cycle_gauge m \<Longrightarrow> collects P s (snd (gauge_set e m ls j t)) = collects P s t"
  "\<not> cycle_gauge m \<Longrightarrow> collects P s (snd (set_len m j t)) = collects P s t"
  "collects P s (world_insert w r t) = collects P s t"
  "collects P s (inst_insert w i t) = collects P s t"
  "collects P s (t\<lparr>world_cache := wc\<rparr>) = collects P s t"
  "collects P s (t\<lparr>instance_cache := ic\<rparr>) = collects P s t"
  "collects P s (t\<lparr>user_info := ui\<rparr>) = collects P s t"
  "collects P s (t\<lparr>user_status := us\<rparr>) = collects P s t"
  by (auto simp: collects_def gauge_put_def counter_inc_def metrics_clear_def child_def
        gauge_set_def set_len_def world_insert_def inst_insert_def Let_def split: res.splits)

lemma collects_seq:
  assumes "collects P s (snd m)" "\<And>a. fst m = Ret a \<Longrightarrow> collects P (snd m) (snd (f a (snd m)))"
  shows "collects P s (snd (seq m f))"
  using assms by (auto simp: seq_cases split: res.splits intro: collects_trans)

lemma collects_seq_opt:
  assumes "\<And>r1 s1. m = Some (r1, s1) \<Longrightarrow> collects P s s1"
      and "\<And>a s1 r2 s2. f a s1 = Some (r2, s2) \<Longrightarrow> collects P s1 s2"
      and "seq_opt m f = Some (r, s')"
  shows "collects P s s'"
  using assms
  by (auto simp: seq_opt_def split: option.splits res.splits intro: collects_trans)


lemma fetch_pages_collects:
  assumes run: "fetch_pages e ep mk off acc s = Some (res, s')"
      and P: "\<And>t off. P (t, ep, mk off)"
  shows "collects P s s'"
proof (rule fetch_pages_invariant [OF run, where I = "collects P s"])
  fix off t assume "collects P s t"
  then show "collects P s (snd (client_get e ep (mk off) t))"
    by (rule collects_trans) (rule collects_get, rule P)
qed simp

lemma fetch_pages_first:
  assumes run: "fetch_pages e ep mk off acc s = Some (res, s')"
  shows "\<exists>t new. requests s' = requests s @ (t, ep, mk off) # new"
proof -
  obtain a s1 where g: "client_get e ep (mk off) s = (a, s1)"
    by (cases "client_get e ep (mk off) s")
  have r1: "requests s1 = requests s @ [(clock (throttle e s), ep, mk off)]"
    using client_get_requests [OF g] by simp
  have "\<exists>new. requests s' = requests s1 @ new"
  proof (cases "\<exists>xs. a = JArr xs \<and> xs \<noteq> [] \<and> \<not> length xs < 100")
    case True
    then obtain xs where a: "a = JArr xs" "xs \<noteq> []" "\<not> length xs < 100" by blast
    have "fetch_pages e ep mk (off + 100) (acc @ xs) s1 = Some (res, s')"
      using run by (subst (asm) fetch_pages.simps) (simp add: g a)
    from fetch_pages_collects [OF this, of "\<lambda>q. True"] show ?thesis
      by (auto simp: collects_def)
  next
    case False
    have "s' = s1"
      using run False by (subst (asm) fetch_pages.simps) (auto simp: g split: json.splits if_splits)
    then show ?thesis by simp
  qed
  then show ?thesis using r1 by auto
qed


end
